theory Spec2Isabelle
  imports Main "HOL-Library.Char_ord" "HOL-Library.List_Lexorder"
begin

section \<open>snakefood: the dependency generator \<open>gendeps\<close>\<close>

text \<open>
  A shallow embedding of \<^verbatim>\<open>lib/python/snakefood/gendeps.py\<close>. The function
  \<^verbatim>\<open>gendeps\<close> checks its input paths, computes the package roots, and then runs a
  worklist loop: every file is handed to the import extractor \<^verbatim>\<open>find_dependencies\<close>,
  its own node and its dependencies are recorded in the dictionary \<^verbatim>\<open>allfiles\<close>, and in
  follow mode the dependencies found become the next worklist. At the end the collected
  extraction errors are reported.

  The modules \<^verbatim>\<open>util\<close>, \<^verbatim>\<open>find\<close>, \<^verbatim>\<open>roots\<close> and \<^verbatim>\<open>depends\<close> are imported by the file and
  are not part of it; what \<^verbatim>\<open>gendeps\<close> calls from them is a parameter of the model
  (the record \<open>env\<close>), so every theorem holds for all of their behaviours.
  Logging through \<^verbatim>\<open>info\<close> and the printing of the result by \<^verbatim>\<open>output_depends\<close> (line 186) are
  not modelled, nor is the assignment to \<^verbatim>\<open>sys.path\<close> on line 94, which only the extractor
  reads. Of lines 175 to 182, which log the roots found, the model keeps the exception
  they can raise.
  An exception is a value: \<^verbatim>\<open>parser.error\<close> is \<open>ParserError\<close> with its message, and
  subscripting \<^verbatim>\<open>None\<close> is \<open>TypeError\<close>.
\<close>

subsection \<open>Paths: \<^verbatim>\<open>os.path.basename\<close> and \<^verbatim>\<open>os.path.dirname\<close> (posixpath)\<close>

type_synonym path = string

text \<open>\<^verbatim>\<open>i = p.rfind('/') + 1; return p[i:]\<close>\<close>

definition basename :: "path \<Rightarrow> path" where
  "basename p = rev (takeWhile (\<lambda>c. c \<noteq> CHR ''/'') (rev p))"

text \<open>
  \<^verbatim>\<open>i = p.rfind('/') + 1; head = p[:i]\<close>;
  \<^verbatim>\<open>if head and head != '/'*len(head): head = head.rstrip('/')\<close>; \<^verbatim>\<open>return head\<close>
\<close>

definition dirname :: "path \<Rightarrow> path" where
  "dirname p =
     (let head = rev (dropWhile (\<lambda>c. c \<noteq> CHR ''/'') (rev p))
      in if head \<noteq> [] \<and> head \<noteq> replicate (length head) (CHR ''/'')
         then rev (dropWhile (\<lambda>c. c = CHR ''/'') (rev head))
         else head)"

subsection \<open>Data\<close>

text \<open>
  A node is the pair \<^verbatim>\<open>(root, filename)\<close>; each component may be \<^verbatim>\<open>None\<close>, and
  \<^verbatim>\<open>(None, None)\<close> is the target that only says "include the source as a node".
  \<^verbatim>\<open>relfile\<close> returns such a pair or \<^verbatim>\<open>None\<close>, and whatever it returns for a dependency is
  put into the target set, so a member of a target set is a \<open>node_identity option\<close>.
\<close>

type_synonym node_identity = "string option \<times> string option"

type_synonym target = "node_identity option"

definition sentinel :: target where
  "sentinel = Some (None, None)"

text \<open>The error kinds of module \<^verbatim>\<open>find\<close>; \<^verbatim>\<open>gendeps\<close> names the first two.\<close>

datatype error_kind = ERROR_IMPORT | ERROR_SYMBOL | ERROR_UNUSED | ERROR_SOURCE

type_synonym error_record = "error_kind \<times> string"

text \<open>The options of the command line, as \<^verbatim>\<open>optparse\<close> stores them in \<^verbatim>\<open>opts\<close>.\<close>

record opts =
  internal :: bool
  ignores :: "string list"
  verbose :: nat
  follow :: bool
  print_roots :: bool
  do_pragmas :: bool

text \<open>The functions called by \<^verbatim>\<open>gendeps\<close> and defined elsewhere.\<close>

record env =
  realpath :: "path \<Rightarrow> path"
  exists :: "path \<Rightarrow> bool"
  find_roots :: "path list \<Rightarrow> string list \<Rightarrow> string list"
  iter_pyfiles :: "path list \<Rightarrow> string list \<Rightarrow> bool \<Rightarrow> path list"
  find_dependencies :: "path \<Rightarrow> nat \<Rightarrow> bool \<Rightarrow> path list \<times> error_record list"
  relfile :: "path \<Rightarrow> string list \<Rightarrow> node_identity option"

text \<open>
  The local variables of \<^verbatim>\<open>gendeps\<close> that the loop updates. \<open>calls\<close> is the trace of
  the invocations of \<^verbatim>\<open>find_dependencies\<close> (line 116), in the order they happen.
\<close>

record state =
  allfiles :: "node_identity \<rightharpoonup> target set"
  allerrors :: "error_record list"
  processed_files :: "path set"
  newfiles :: "path set"
  calls :: "path list"

definition init_state :: state where
  "init_state = \<lparr>allfiles = Map.empty, allerrors = [], processed_files = {},
                  newfiles = {}, calls = []\<rparr>"

datatype error = ParserError string | TypeError

subsection \<open>The loop body\<close>

text \<open>\<^verbatim>\<open>allfiles[k].add(v)\<close> on a \<^verbatim>\<open>defaultdict(set)\<close>: a missing key starts from the empty set.\<close>

definition dd_add :: "('k \<rightharpoonup> 'v set) \<Rightarrow> 'k \<Rightarrow> 'v \<Rightarrow> ('k \<rightharpoonup> 'v set)" where
  "dd_add m k v = m(k \<mapsto> insert v (case m k of None \<Rightarrow> {} | Some s \<Rightarrow> s))"

text \<open>\<^verbatim>\<open>r in inroots\<close> for a root that may be \<^verbatim>\<open>None\<close>; \<^verbatim>\<open>inroots\<close> is a frozenset of strings.\<close>

definition root_in :: "string option \<Rightarrow> string set \<Rightarrow> bool" where
  "root_in r inroots = (case r of None \<Rightarrow> False | Some d \<Rightarrow> d \<in> inroots)"

text \<open>Lines 122 to 127: the source endpoint, \<^verbatim>\<open>__init__.py\<close> removed, then \<^verbatim>\<open>relfile\<close>.\<close>

definition from_identity :: "env \<Rightarrow> opts \<Rightarrow> path \<Rightarrow> node_identity option" where
  "from_identity e opts fn =
     (let fn = (if basename fn = ''__init__.py'' then dirname fn else fn)
      in relfile e fn (ignores opts))"

text \<open>Lines 136 to 140: the same for a dependency.\<close>

definition to_identity :: "env \<Rightarrow> opts \<Rightarrow> path \<Rightarrow> node_identity option" where
  "to_identity e opts dfn =
     (let xfn = dfn;
          xfn = (if basename xfn = ''__init__.py'' then dirname xfn else xfn)
      in relfile e xfn (ignores opts))"

text \<open>
  Lines 135 to 144, the loop over the dependencies of one file. With \<^verbatim>\<open>--internal\<close>,
  \<^verbatim>\<open>to_[0]\<close> is evaluated, which raises \<^verbatim>\<open>TypeError\<close> when \<^verbatim>\<open>to_\<close> is \<^verbatim>\<open>None\<close>; without it
  the \<^verbatim>\<open>and\<close> is false before \<^verbatim>\<open>to_\<close> is looked at.
\<close>

fun add_dependencies ::
  "env \<Rightarrow> opts \<Rightarrow> string set \<Rightarrow> node_identity \<Rightarrow> state \<Rightarrow> path list \<Rightarrow> error + state" where
  "add_dependencies e opts inroots from_id st [] = Inr st"
| "add_dependencies e opts inroots from_id st (dfn # files) =
     (let to_id = to_identity e opts dfn;
          added = st\<lparr>allfiles := dd_add (allfiles st) from_id to_id,
                     newfiles := insert dfn (newfiles st)\<rparr>
      in if internal opts
         then (case to_id of
                 None \<Rightarrow> Inl TypeError
               | Some t \<Rightarrow>
                   if \<not> root_in (fst t) inroots
                   then add_dependencies e opts inroots from_id st files
                   else add_dependencies e opts inroots from_id added files)
         else add_dependencies e opts inroots from_id added files)"

text \<open>Lines 111 to 144, the body of \<^verbatim>\<open>for fn in fiter\<close>.\<close>

definition process_file :: "env \<Rightarrow> opts \<Rightarrow> string set \<Rightarrow> state \<Rightarrow> path \<Rightarrow> error + state" where
  "process_file e opts inroots st fn =
     (if fn \<in> processed_files st then Inr st
      else
        let st = st\<lparr>processed_files := insert fn (processed_files st),
                    calls := calls st @ [fn]\<rparr>;
            (files, errors) = find_dependencies e fn (verbose opts) (do_pragmas opts);
            st = st\<lparr>allerrors := allerrors st @ errors\<rparr>
        in case from_identity e opts fn of
             None \<Rightarrow> Inr st
           | Some from_id \<Rightarrow>
               if internal opts \<and> \<not> root_in (fst from_id) inroots then Inr st
               else add_dependencies e opts inroots from_id
                      (st\<lparr>allfiles := dd_add (allfiles st) from_id sentinel\<rparr>) files)"

text \<open>Lines 110 to 144: one round, \<^verbatim>\<open>for fn in fiter\<close>. An exception ends it.\<close>

fun gendeps_round :: "env \<Rightarrow> opts \<Rightarrow> string set \<Rightarrow> state \<Rightarrow> path list \<Rightarrow> error + state" where
  "gendeps_round e opts inroots st [] = Inr st"
| "gendeps_round e opts inroots st (fn # fiter) =
     (case process_file e opts inroots st fn of
        Inl err \<Rightarrow> Inl err
      | Inr st' \<Rightarrow> gendeps_round e opts inroots st' fiter)"

text \<open>Line 150: \<^verbatim>\<open>fiter = iter(sorted(newfiles))\<close>.\<close>

definition next_fiter :: "state \<Rightarrow> path list" where
  "next_fiter st = sorted_list_of_set (newfiles st)"

text \<open>
  Lines 108 to 150: \<^verbatim>\<open>while 1\<close>. Each round starts with \<^verbatim>\<open>newfiles = set()\<close>; the loop
  is left when \<^verbatim>\<open>not (opts.follow and newfiles)\<close>, and otherwise goes on with
  the sorted \<^verbatim>\<open>newfiles\<close>. The result is \<open>None\<close> when the loop runs forever.
\<close>

partial_function (option) gendeps_loop ::
  "env \<Rightarrow> opts \<Rightarrow> string set \<Rightarrow> state \<Rightarrow> path list \<Rightarrow> (error + state) option" where
  "gendeps_loop e opts inroots st fiter =
     (case gendeps_round e opts inroots (st\<lparr>newfiles := {}\<rparr>) fiter of
        Inl err \<Rightarrow> Some (Inl err)
      | Inr st' \<Rightarrow>
          if \<not> (follow opts \<and> newfiles st' \<noteq> {}) then Some (Inr st')
          else gendeps_loop e opts inroots st' (next_fiter st'))"

declare gendeps_loop.simps [code]

subsection \<open>The report of the extraction errors\<close>

datatype level = WARNING | DEBUG

text \<open>Line 164: \<^verbatim>\<open>frozenset(name for err, name in allerrors if err is errtype)\<close>.\<close>

definition error_names :: "error_record list \<Rightarrow> error_kind \<Rightarrow> string set" where
  "error_names errs errtype = set (map snd (filter (\<lambda>(err, name). err = errtype) errs))"

text \<open>Lines 164 to 169, the body of \<^verbatim>\<open>for msg, errtype, efun in reports\<close>.\<close>

definition report_one ::
  "error_record list \<Rightarrow> string \<times> error_kind \<times> level \<Rightarrow> (level \<times> string) list" where
  "report_one errs r =
     (case r of (msg, errtype, efun) \<Rightarrow>
        let names = error_names errs errtype
        in if names \<noteq> {}
           then [(efun, ''''), (efun, msg)]
                @ map (\<lambda>name. (efun, ''  '' @ name)) (sorted_list_of_set names)
           else [])"

text \<open>Lines 158 to 161.\<close>

definition reports :: "opts \<Rightarrow> (string \<times> error_kind \<times> level) list" where
  "reports opts =
     [(''Modules that could not be imported:'', ERROR_IMPORT, WARNING)]
     @ (if verbose opts \<ge> 2
        then [(''Symbols that could not be imported as modules:'', ERROR_SYMBOL, DEBUG)]
        else [])"

text \<open>Lines 158 to 169: the lines logged, each with the logging function used.\<close>

definition report_errors :: "opts \<Rightarrow> error_record list \<Rightarrow> (level \<times> string) list" where
  "report_errors opts errs = concat (map (report_one errs) (reports opts))"

subsection \<open>The whole of \<^verbatim>\<open>gendeps\<close>\<close>

text \<open>Lines 75 to 79: \<^verbatim>\<open>parser.error\<close> prints the message and exits with status 2.\<close>

fun check_paths :: "env \<Rightarrow> path list \<Rightarrow> error + unit" where
  "check_paths e [] = Inr ()"
| "check_paths e (arg # args) =
     (let fn = realpath e arg
      in if \<not> exists e fn
         then Inl (ParserError (''Filename '' @ [CHR 0x27] @ fn @ [CHR 0x27] @ '' does not exist.''))
         else check_paths e args)"

definition no_roots_message :: string where
  "no_roots_message =
     ''No package roots found from the given files or directories. ''
     @ ''Using --internal with these roots will generate no dependencies.''"

text \<open>
  What a run ends with: the roots printed by \<^verbatim>\<open>--print-roots\<close>, or the state after the
  loop together with the report.
\<close>

datatype outcome = PrintedRoots "string list" | Completed state "(level \<times> string) list"

text \<open>
  Lines 176 to 178: \<^verbatim>\<open>found_roots.update(map(itemgetter(0), files))\<close> subscripts every target
  of every key of \<^verbatim>\<open>allfiles\<close>; a target that is \<^verbatim>\<open>None\<close> raises \<^verbatim>\<open>TypeError\<close>.
\<close>

definition null_target :: "state \<Rightarrow> bool" where
  "null_target st = (\<exists>k S. allfiles st k = Some S \<and> None \<in> S)"

definition gendeps :: "env \<Rightarrow> opts \<Rightarrow> string list \<Rightarrow> (error + outcome) option" where
  "gendeps e opts args =
     (let args = (if args = [] then [''.''] else args)
      in if print_roots opts
         then Some (Inr (PrintedRoots (sort (find_roots e args (ignores opts)))))
         else
           (case check_paths e args of
              Inl err \<Rightarrow> Some (Inl err)
            | Inr _ \<Rightarrow>
                (let inroots = find_roots e args (ignores opts)
                 in if internal opts \<and> inroots = []
                    then Some (Inl (ParserError no_roots_message))
                    else
                      (case gendeps_loop e opts (set inroots) init_state
                              (iter_pyfiles e args (ignores opts) False) of
                         None \<Rightarrow> None
                       | Some (Inl err) \<Rightarrow> Some (Inl err)
                       | Some (Inr st) \<Rightarrow>
                           if null_target st then Some (Inl TypeError)
                           else Some (Inr (Completed st (report_errors opts (allerrors st))))))))"

subsection \<open>Notions used to state the properties\<close>

text \<open>The files \<^verbatim>\<open>find_dependencies\<close> returns for \<open>fn\<close> under the options of the run.\<close>

abbreviation deps_of :: "env \<Rightarrow> opts \<Rightarrow> path \<Rightarrow> path list" where
  "deps_of e opts fn \<equiv> fst (find_dependencies e fn (verbose opts) (do_pragmas opts))"

text \<open>The state after lines 115 to 117 for a file not seen before.\<close>

definition extracted :: "env \<Rightarrow> opts \<Rightarrow> state \<Rightarrow> path \<Rightarrow> state" where
  "extracted e opts st fn =
     st\<lparr>processed_files := insert fn (processed_files st), calls := calls st @ [fn],
        allerrors := allerrors st @ snd (find_dependencies e fn (verbose opts) (do_pragmas opts))\<rparr>"

text \<open>Every key of the dictionary has \<^verbatim>\<open>(None, None)\<close> among its targets.\<close>

definition sentinel_inv :: "(node_identity \<rightharpoonup> target set) \<Rightarrow> bool" where
  "sentinel_inv m = (\<forall>k S. m k = Some S \<longrightarrow> sentinel \<in> S)"

text \<open>
  The dependencies that the test of line 141 lets through under \<^verbatim>\<open>--internal\<close>: those whose
  identity has a root among the input roots.
\<close>

definition kept :: "env \<Rightarrow> opts \<Rightarrow> string set \<Rightarrow> path \<Rightarrow> bool" where
  "kept e opts R dfn =
     (case to_identity e opts dfn of None \<Rightarrow> False | Some t \<Rightarrow> root_in (fst t) R)"

text \<open>
  To say that the errors of the extractor do not influence the run: the same environment
  with an extractor that finds the same files and reports no error, and a state with its
  error list emptied.
\<close>

definition without_errors :: "env \<Rightarrow> env" where
  "without_errors e =
     e\<lparr>find_dependencies := \<lambda>fn v p. (fst (find_dependencies e fn v p), [])\<rparr>"

definition forget_errors :: "state \<Rightarrow> state" where
  "forget_errors st = st\<lparr>allerrors := []\<rparr>"

text \<open>
  The next worklist as the specification words it: the sorted set of the files found in
  this round that are not in the processed set. It is compared with \<open>next_fiter\<close> below.
\<close>

definition spec_next_worklist :: "state \<Rightarrow> path list" where
  "spec_next_worklist st = sorted_list_of_set (newfiles st - processed_files st)"

subsection \<open>A small file tree to run the model on\<close>

text \<open>
  Two roots, \<^verbatim>\<open>/proj\<close> (the input) and \<^verbatim>\<open>/ext\<close>. \<^verbatim>\<open>a.py\<close> and \<^verbatim>\<open>b.py\<close> import each
  other; \<^verbatim>\<open>a.py\<close> also imports a file of \<^verbatim>\<open>/ext\<close> and the package \<^verbatim>\<open>pkg\<close>; \<^verbatim>\<open>c.py\<close>
  imports a file that lies under no root.
\<close>

definition ex_relfile :: "path \<Rightarrow> string list \<Rightarrow> node_identity option" where
  "ex_relfile p ig =
     (if take 6 p = ''/proj/'' then Some (Some ''/proj'', Some (drop 6 p))
      else if take 5 p = ''/ext/'' then Some (Some ''/ext'', Some (drop 5 p))
      else None)"

definition ex_find_dependencies :: "path \<Rightarrow> nat \<Rightarrow> bool \<Rightarrow> path list \<times> error_record list" where
  "ex_find_dependencies p v d =
     (if p = ''/proj/a.py''
      then ([''/proj/b.py'', ''/ext/x.py'', ''/proj/pkg/__init__.py''],
            [(ERROR_IMPORT, ''zlib''), (ERROR_SYMBOL, ''os.path.join'')])
      else if p = ''/proj/b.py'' then ([''/proj/a.py''], [(ERROR_IMPORT, ''zlib'')])
      else if p = ''/proj/c.py'' then ([''/tmp/z.py''], [])
      else if p = ''/ext/x.py'' then ([''/ext/y.py''], [])
      else ([], []))"

definition ex_env :: env where
  "ex_env = \<lparr>realpath = (\<lambda>p. p), exists = (\<lambda>p. p \<noteq> ''/missing''),
              find_roots = (\<lambda>ps ig. if ps = [''/none''] then [] else [''/proj'']),
              iter_pyfiles = (\<lambda>ps ig b. [''/proj/a.py'', ''/proj/b.py'']),
              find_dependencies = ex_find_dependencies, relfile = ex_relfile\<rparr>"

text \<open>\<^verbatim>\<open>--internal --follow\<close>, and \<^verbatim>\<open>--follow\<close> alone.\<close>

definition ex_opts :: opts where
  "ex_opts = \<lparr>internal = True, ignores = [], verbose = 0, follow = True,
               print_roots = False, do_pragmas = True\<rparr>"

definition ex_opts_external :: opts where
  "ex_opts_external = \<lparr>internal = False, ignores = [], verbose = 0, follow = True,
               print_roots = False, do_pragmas = True\<rparr>"

text \<open>\<^verbatim>\<open>--print-roots --internal\<close>.\<close>

definition ex_opts_print_roots :: opts where
  "ex_opts_print_roots = \<lparr>internal = True, ignores = [], verbose = 0, follow = False,
               print_roots = True, do_pragmas = True\<rparr>"

text \<open>The state after the first round of \<^verbatim>\<open>--internal --follow\<close> on \<^verbatim>\<open>a.py\<close> and \<^verbatim>\<open>b.py\<close>.\<close>

definition ex_round1 :: "error + state" where
  "ex_round1 = gendeps_round ex_env ex_opts {''/proj''} (init_state\<lparr>newfiles := {}\<rparr>)
                 [''/proj/a.py'', ''/proj/b.py'']"

section \<open>Properties\<close>

subsection \<open>One file\<close>

lemma add_dependencies_frame:
  "add_dependencies e opts R k st files = Inr st' \<Longrightarrow>
     processed_files st' = processed_files st \<and> calls st' = calls st \<and> allerrors st' = allerrors st"
  by (induction files arbitrary: st) (auto simp: Let_def split: if_splits option.splits)

lemma add_dependencies_newfiles:
  "add_dependencies e opts R k st files = Inr st' \<Longrightarrow>
     newfiles st \<subseteq> newfiles st' \<and> newfiles st' \<subseteq> newfiles st \<union> set files"
proof (induction files arbitrary: st)
  case Nil then show ?case by simp
next
  case (Cons dfn files)
  then show ?case
    by (fastforce simp: Let_def split: if_splits option.splits)
qed

lemma add_dependencies_other:
  "add_dependencies e opts R k st files = Inr st' \<Longrightarrow> k' \<noteq> k \<Longrightarrow> allfiles st' k' = allfiles st k'"
  by (induction files arbitrary: st) (auto simp: Let_def dd_add_def split: if_splits option.splits)

lemma add_dependencies_grow:
  "add_dependencies e opts R k st files = Inr st' \<Longrightarrow> allfiles st k = Some S \<Longrightarrow>
     \<exists>S'. allfiles st' k = Some S' \<and> S \<subseteq> S'"
proof (induction files arbitrary: st S)
  case Nil then show ?case by simp
next
  case (Cons dfn files)
  let ?added = "st\<lparr>allfiles := dd_add (allfiles st) k (to_identity e opts dfn),
                     newfiles := insert dfn (newfiles st)\<rparr>"
  have added: "allfiles ?added k = Some (insert (to_identity e opts dfn) S)"
    using Cons.prems(2) by (simp add: dd_add_def)
  from Cons.prems(1) consider
      (skip) "add_dependencies e opts R k st files = Inr st'"
    | (add) "add_dependencies e opts R k ?added files = Inr st'"
    by (auto simp: Let_def split: if_splits option.splits)
  then show ?case
  proof cases
    case skip
    from Cons.IH[OF skip Cons.prems(2)] show ?thesis .
  next
    case add
    from Cons.IH[OF add added] show ?thesis by auto
  qed
qed

lemma process_file_skip:
  "fn \<in> processed_files st \<Longrightarrow> process_file e opts R st fn = Inr st"
  by (simp add: process_file_def)

lemma process_file_new:
  assumes "fn \<notin> processed_files st"
  shows "process_file e opts R st fn =
     (case from_identity e opts fn of
        None \<Rightarrow> Inr (extracted e opts st fn)
      | Some fid \<Rightarrow>
          if internal opts \<and> \<not> root_in (fst fid) R then Inr (extracted e opts st fn)
          else add_dependencies e opts R fid
                 ((extracted e opts st fn)\<lparr>allfiles := dd_add (allfiles st) fid sentinel\<rparr>)
                 (deps_of e opts fn))"
proof -
  obtain files errors where fd: "find_dependencies e fn (verbose opts) (do_pragmas opts) = (files, errors)"
    by (cases "find_dependencies e fn (verbose opts) (do_pragmas opts)")
  show ?thesis
    using assms by (auto simp: process_file_def extracted_def fd Let_def split: option.split)
qed

lemma process_file_cases:
  assumes "process_file e opts R st fn = Inr st'"
  obtains (old) "fn \<in> processed_files st" "st' = st"
  | (out) "fn \<notin> processed_files st" "st' = extracted e opts st fn"
      "from_identity e opts fn = None \<or>
       (\<exists>fid. from_identity e opts fn = Some fid \<and> internal opts \<and> \<not> root_in (fst fid) R)"
  | (scope) fid where "fn \<notin> processed_files st" "from_identity e opts fn = Some fid"
      "internal opts \<longrightarrow> root_in (fst fid) R"
      "add_dependencies e opts R fid
         ((extracted e opts st fn)\<lparr>allfiles := dd_add (allfiles st) fid sentinel\<rparr>)
         (deps_of e opts fn) = Inr st'"
proof (cases "fn \<in> processed_files st")
  case True
  with assms have "st' = st" by (simp add: process_file_def)
  with True show ?thesis by (rule old)
next
  case False
  note pf = process_file_new[OF False, of e opts R]
  show ?thesis
  proof (cases "from_identity e opts fn")
    case None
    with assms pf have "st' = extracted e opts st fn" by simp
    with False None show ?thesis by (intro out) auto
  next
    case (Some fid)
    show ?thesis
    proof (cases "internal opts \<and> \<not> root_in (fst fid) R")
      case True
      with assms pf Some have "st' = extracted e opts st fn" by simp
      with False Some True show ?thesis by (intro out) auto
    next
      case nf: False
      with assms pf Some
      have "add_dependencies e opts R fid
         ((extracted e opts st fn)\<lparr>allfiles := dd_add (allfiles st) fid sentinel\<rparr>)
         (deps_of e opts fn) = Inr st'" by simp
      with False Some nf show ?thesis by (intro scope[of fid]) auto
    qed
  qed
qed

lemma extracted_simps [simp]:
  "processed_files (extracted e opts st fn) = insert fn (processed_files st)"
  "calls (extracted e opts st fn) = calls st @ [fn]"
  "allerrors (extracted e opts st fn) =
     allerrors st @ snd (find_dependencies e fn (verbose opts) (do_pragmas opts))"
  "newfiles (extracted e opts st fn) = newfiles st"
  "allfiles (extracted e opts st fn) = allfiles st"
  by (simp_all add: extracted_def)

lemma process_file_frame:
  assumes "process_file e opts R st fn = Inr st'"
  shows "processed_files st' = insert fn (processed_files st)"
    and "calls st' = (if fn \<in> processed_files st then calls st else calls st @ [fn])"
    and "allerrors st' = (if fn \<in> processed_files st then allerrors st
           else allerrors st @ snd (find_dependencies e fn (verbose opts) (do_pragmas opts)))"
proof -
  from assms
  have "processed_files st' = insert fn (processed_files st) \<and>
        calls st' = (if fn \<in> processed_files st then calls st else calls st @ [fn]) \<and>
        allerrors st' = (if fn \<in> processed_files st then allerrors st
           else allerrors st @ snd (find_dependencies e fn (verbose opts) (do_pragmas opts)))"
  proof (cases rule: process_file_cases)
    case old then show ?thesis by auto
  next
    case out then show ?thesis by simp
  next
    case (scope fid)
    from add_dependencies_frame[OF scope(4)] scope(1) show ?thesis by simp
  qed
  then show "processed_files st' = insert fn (processed_files st)"
    and "calls st' = (if fn \<in> processed_files st then calls st else calls st @ [fn])"
    and "allerrors st' = (if fn \<in> processed_files st then allerrors st
           else allerrors st @ snd (find_dependencies e fn (verbose opts) (do_pragmas opts)))"
    by simp_all
qed

lemma process_file_newfiles:
  assumes "process_file e opts R st fn = Inr st'"
  shows "newfiles st \<subseteq> newfiles st'"
    and "newfiles st' \<subseteq> newfiles st \<union> (if fn \<in> processed_files st then {} else set (deps_of e opts fn))"
proof -
  from assms
  have "newfiles st \<subseteq> newfiles st' \<and>
    newfiles st' \<subseteq> newfiles st \<union> (if fn \<in> processed_files st then {} else set (deps_of e opts fn))"
  proof (cases rule: process_file_cases)
    case old then show ?thesis by simp
  next
    case out then show ?thesis by simp
  next
    case (scope fid)
    from add_dependencies_newfiles[OF scope(4)] scope(1) show ?thesis by simp
  qed
  then show "newfiles st \<subseteq> newfiles st'"
    and "newfiles st' \<subseteq> newfiles st \<union> (if fn \<in> processed_files st then {} else set (deps_of e opts fn))"
    by simp_all
qed

lemma dd_add_grow: "m k' = Some S \<Longrightarrow> \<exists>S'. dd_add m k v k' = Some S' \<and> S \<subseteq> S'"
  by (auto simp: dd_add_def)

lemma process_file_allfiles_grow:
  assumes run: "process_file e opts R st fn = Inr st'" and S: "allfiles st k = Some S"
  shows "\<exists>S'. allfiles st' k = Some S' \<and> S \<subseteq> S'"
  using run
proof (cases rule: process_file_cases)
  case old
  with S show ?thesis by simp
next
  case out
  with S show ?thesis by (simp add: extracted_def)
next
  case (scope fid)
  let ?st2 = "(extracted e opts st fn)\<lparr>allfiles := dd_add (allfiles st) fid sentinel\<rparr>"
  from dd_add_grow[of "allfiles st" k S fid sentinel] S
  obtain S1 where S1: "allfiles ?st2 k = Some S1" "S \<subseteq> S1" by auto
  show ?thesis
  proof (cases "k = fid")
    case True
    from add_dependencies_grow[OF scope(4) S1(1)[unfolded True]] S1(2) show ?thesis
      unfolding True by auto
  next
    case False
    from add_dependencies_other[OF scope(4) False] S1 show ?thesis by auto
  qed
qed

lemma process_file_sentinel:
  assumes run: "process_file e opts R st fn = Inr st'" and new: "fn \<notin> processed_files st"
    and fid: "from_identity e opts fn = Some fid" and ok: "internal opts \<longrightarrow> root_in (fst fid) R"
  shows "\<exists>S. allfiles st' fid = Some S \<and> sentinel \<in> S"
  using run
proof (cases rule: process_file_cases)
  case old
  with new show ?thesis by simp
next
  case out
  with fid ok show ?thesis by auto
next
  case (scope fid')
  with fid have [simp]: "fid' = fid" by simp
  let ?st2 = "(extracted e opts st fn)\<lparr>allfiles := dd_add (allfiles st) fid sentinel\<rparr>"
  obtain S0 where S0: "allfiles ?st2 fid = Some S0" "sentinel \<in> S0"
    by (simp add: dd_add_def)
  from add_dependencies_grow[OF scope(4)[simplified] S0(1)] S0(2) show ?thesis by auto
qed

lemma gendeps_round_Cons:
  assumes "gendeps_round e opts R st (fn # fiter) = Inr st'"
  obtains s1 where "process_file e opts R st fn = Inr s1" "gendeps_round e opts R s1 fiter = Inr st'"
  using assms by (cases "process_file e opts R st fn") simp_all

lemma gendeps_round_invariant:
  assumes "gendeps_round e opts R st fiter = Inr st'" and "P st"
    and "\<And>s fn s'. P s \<Longrightarrow> fn \<in> set fiter \<Longrightarrow> process_file e opts R s fn = Inr s' \<Longrightarrow> P s'"
  shows "P st'"
  using assms
proof (induction fiter arbitrary: st)
  case Nil then show ?case by simp
next
  case (Cons fn fiter)
  from Cons.prems(1) obtain s1 where s1: "process_file e opts R st fn = Inr s1"
    and rest: "gendeps_round e opts R s1 fiter = Inr st'"
    by (rule gendeps_round_Cons)
  have fn: "fn \<in> set (fn # fiter)" by simp
  have P1: "P s1" by (rule Cons.prems(3)[OF Cons.prems(2) fn s1])
  show ?case
  proof (rule Cons.IH[OF rest P1])
    fix s f s' assume "P s" "f \<in> set fiter" "process_file e opts R s f = Inr s'"
    moreover from \<open>f \<in> set fiter\<close> have "f \<in> set (fn # fiter)" by simp
    ultimately show "P s'" using Cons.prems(3) by blast
  qed
qed

lemma gendeps_loop_body:
  assumes "(case gendeps_round e opts R (s\<lparr>newfiles := {}\<rparr>) ws of
              Inl err \<Rightarrow> Some (Inl err)
            | Inr st' \<Rightarrow>
                if \<not> (follow opts \<and> newfiles st' \<noteq> {}) then Some (Inr st')
                else loop e opts R st' (next_fiter st')) = Some (Inr s')"
  shows "\<exists>s1. gendeps_round e opts R (s\<lparr>newfiles := {}\<rparr>) ws = Inr s1 \<and>
           (\<not> (follow opts \<and> newfiles s1 \<noteq> {}) \<longrightarrow> s' = s1) \<and>
           (follow opts \<and> newfiles s1 \<noteq> {} \<longrightarrow> loop e opts R s1 (next_fiter s1) = Some (Inr s'))"
proof (cases "gendeps_round e opts R (s\<lparr>newfiles := {}\<rparr>) ws")
  case (Inl err)
  with assms show ?thesis by simp
next
  case (Inr s1)
  with assms show ?thesis by (cases "follow opts \<and> newfiles s1 \<noteq> {}") auto
qed

lemma gendeps_loop_invariant:
  assumes run: "gendeps_loop e opts R st fiter = Some (Inr st')" and init: "P st"
    and step: "\<And>s fn s'. P s \<Longrightarrow> process_file e opts R s fn = Inr s' \<Longrightarrow> P s'"
    and reset: "\<And>s. P s \<Longrightarrow> P (s\<lparr>newfiles := {}\<rparr>)"
  shows "P st'"
proof -
  define Q where "Q = (\<lambda>e' opts' R' s (ws::path list) (r::error + state).
              e' = e \<and> opts' = opts \<and> R' = R \<longrightarrow> P s \<longrightarrow> (\<forall>s'. r = Inr s' \<longrightarrow> P s'))"
  have "Q e opts R st fiter (Inr st')"
  proof (rule gendeps_loop.raw_induct[where P = Q, OF _ run])
    fix loop e' opts' R' s ws r
    assume IH: "\<And>e opts R s ws y. loop e opts R s ws = Some y \<Longrightarrow> Q e opts R s ws y"
      and body: "(case gendeps_round e' opts' R' (s\<lparr>newfiles := {}\<rparr>) ws of
                    Inl err \<Rightarrow> Some (Inl err)
                  | Inr st' \<Rightarrow>
                      if \<not> (follow opts' \<and> newfiles st' \<noteq> {}) then Some (Inr st')
                      else loop e' opts' R' st' (next_fiter st')) = Some r"
    show "Q e' opts' R' s ws r"
      unfolding Q_def
    proof (intro impI allI)
      fix s' assume eq: "e' = e \<and> opts' = opts \<and> R' = R" and Ps: "P s" and r: "r = Inr s'"
      from eq have e1: "e' = e" and e2: "opts' = opts" and e3: "R' = R" by simp_all
      from body
      have body': "(case gendeps_round e opts R (s\<lparr>newfiles := {}\<rparr>) ws of
              Inl err \<Rightarrow> Some (Inl err)
            | Inr st' \<Rightarrow>
                if \<not> (follow opts \<and> newfiles st' \<noteq> {}) then Some (Inr st')
                else loop e opts R st' (next_fiter st')) = Some (Inr s')"
        unfolding e1 e2 e3 r .
      from gendeps_loop_body[where loop=loop and e=e and opts=opts and R=R and s=s and ws=ws and s'=s', OF body']
      obtain s1 where s1: "gendeps_round e opts R (s\<lparr>newfiles := {}\<rparr>) ws = Inr s1"
        and stop: "\<not> (follow opts \<and> newfiles s1 \<noteq> {}) \<longrightarrow> s' = s1"
        and cont: "follow opts \<and> newfiles s1 \<noteq> {} \<longrightarrow> loop e opts R s1 (next_fiter s1) = Some (Inr s')"
        by blast
      have Ps1: "P s1"
        by (rule gendeps_round_invariant[where P=P, OF s1 reset[OF Ps]]) (rule step)
      show "P s'"
      proof (cases "\<not> (follow opts \<and> newfiles s1 \<noteq> {})")
        case True
        from stop True Ps1 show ?thesis by simp
      next
        case False
        with cont have "loop e opts R s1 (next_fiter s1) = Some (Inr s')" by simp
        from IH[OF this] Ps1 show ?thesis unfolding Q_def by blast
      qed
    qed
  qed
  with init show ?thesis unfolding Q_def by blast
qed


subsection \<open>The sentinel\<close>

lemma process_file_sentinel_inv:
  assumes run: "process_file e opts R st fn = Inr st'" and inv: "sentinel_inv (allfiles st)"
  shows "sentinel_inv (allfiles st')"
  using run
proof (cases rule: process_file_cases)
  case old
  with inv show ?thesis by simp
next
  case out
  with inv show ?thesis by simp
next
  case (scope fid)
  let ?st2 = "(extracted e opts st fn)\<lparr>allfiles := dd_add (allfiles st) fid sentinel\<rparr>"
  show ?thesis
    unfolding sentinel_inv_def
  proof (intro allI impI)
    fix k S assume kS: "allfiles st' k = Some S"
    show "sentinel \<in> S"
    proof (cases "k = fid")
      case True
      obtain S0 where S0: "allfiles ?st2 fid = Some S0" "sentinel \<in> S0"
        by (simp add: dd_add_def)
      from add_dependencies_grow[OF scope(4) S0(1)] kS S0(2) True show ?thesis by auto
    next
      case False
      from add_dependencies_other[OF scope(4) False] kS False
      have "allfiles st k = Some S" by (simp add: dd_add_def)
      with inv show ?thesis unfolding sentinel_inv_def by blast
    qed
  qed
qed

lemma run_result:
  assumes "case r of Some (Inr st) \<Rightarrow> True | _ \<Rightarrow> False"
  shows "r = Some (Inr (projr (the r)))"
  using assms by (auto split: option.splits sum.splits)

text \<open>
  C10. Every key of \<^verbatim>\<open>allfiles\<close> has \<^verbatim>\<open>(None, None)\<close> in its target set, and every step of
  the builder keeps it so: processing one file keeps it, and so does the whole loop, from
  any state that has the property (the empty dictionary the run starts with has it).
\<close>

theorem sentinel_invariant:
  assumes "sentinel_inv (allfiles st)"
  shows "(process_file e opts R st fn = Inr st' \<longrightarrow> sentinel_inv (allfiles st')) \<and>
         (gendeps_loop e opts R st fiter = Some (Inr st'') \<longrightarrow> sentinel_inv (allfiles st''))"
proof (intro conjI impI)
  assume "process_file e opts R st fn = Inr st'"
  then show "sentinel_inv (allfiles st')" using assms by (rule process_file_sentinel_inv)
next
  assume run: "gendeps_loop e opts R st fiter = Some (Inr st'')"
  show "sentinel_inv (allfiles st'')"
  proof (rule gendeps_loop_invariant[where P = "\<lambda>s. sentinel_inv (allfiles s)", OF run assms])
    fix s f s' assume "sentinel_inv (allfiles s)" "process_file e opts R s f = Inr s'"
    then show "sentinel_inv (allfiles s')" by (rule process_file_sentinel_inv[rotated])
  next
    fix s assume "sentinel_inv (allfiles s)"
    then show "sentinel_inv (allfiles (s\<lparr>newfiles := {}\<rparr>))" by simp
  qed
qed

theorem sentinel_invariant_witness:
  "sentinel_inv (allfiles init_state) \<and>
   sentinel_inv (allfiles (projr (process_file ex_env ex_opts {''/proj''} init_state ''/proj/a.py''))) \<and>
   sentinel_inv (allfiles (projr (the (gendeps_loop ex_env ex_opts {''/proj''} init_state
                                         [''/proj/a.py'', ''/proj/b.py'']))))"
proof -
  have h: "sentinel_inv (allfiles init_state)"
    by (simp add: sentinel_inv_def init_state_def)
  have "\<not> isl (process_file ex_env ex_opts {''/proj''} init_state ''/proj/a.py'')"
    by code_simp
  then have p: "process_file ex_env ex_opts {''/proj''} init_state ''/proj/a.py''
      = Inr (projr (process_file ex_env ex_opts {''/proj''} init_state ''/proj/a.py''))"
    by simp
  have "case gendeps_loop ex_env ex_opts {''/proj''} init_state [''/proj/a.py'', ''/proj/b.py''] of
          Some (Inr st) \<Rightarrow> True | _ \<Rightarrow> False"
    by code_simp
  then have l: "gendeps_loop ex_env ex_opts {''/proj''} init_state [''/proj/a.py'', ''/proj/b.py'']
      = Some (Inr (projr (the (gendeps_loop ex_env ex_opts {''/proj''} init_state
                                 [''/proj/a.py'', ''/proj/b.py'']))))"
    by (rule run_result)
  from sentinel_invariant[OF h, of ex_env ex_opts "{''/proj''}" "''/proj/a.py''" _
         "[''/proj/a.py'', ''/proj/b.py'']"] p l h
  show ?thesis by blast
qed


subsection \<open>Rounds and the processed set\<close>

lemma gendeps_round_processed:
  "gendeps_round e opts R st fiter = Inr st' \<Longrightarrow>
     processed_files st' = processed_files st \<union> set fiter"
proof (induction fiter arbitrary: st)
  case Nil then show ?case by simp
next
  case (Cons fn fiter)
  from Cons.prems obtain s1 where s1: "process_file e opts R st fn = Inr s1"
    and rest: "gendeps_round e opts R s1 fiter = Inr st'"
    by (rule gendeps_round_Cons)
  from Cons.IH[OF rest] process_file_frame(1)[OF s1] show ?case by auto
qed

lemma gendeps_loop_unfold:
  assumes "gendeps_loop e opts R st fiter = Some (Inr st')"
  shows "\<exists>s1. gendeps_round e opts R (st\<lparr>newfiles := {}\<rparr>) fiter = Inr s1 \<and>
           (\<not> (follow opts \<and> newfiles s1 \<noteq> {}) \<longrightarrow> st' = s1) \<and>
           (follow opts \<and> newfiles s1 \<noteq> {} \<longrightarrow>
              gendeps_loop e opts R s1 (next_fiter s1) = Some (Inr st'))"
  by (rule gendeps_loop_body[where loop = gendeps_loop])
     (use assms in \<open>subst (asm) gendeps_loop.simps\<close>)

lemma gendeps_loop_processed_mono:
  assumes "gendeps_loop e opts R st fiter = Some (Inr st')"
  shows "processed_files st \<subseteq> processed_files st'"
proof (rule gendeps_loop_invariant[where P = "\<lambda>s. processed_files st \<subseteq> processed_files s", OF assms])
  show "processed_files st \<subseteq> processed_files st" by simp
next
  fix s fn s' assume "processed_files st \<subseteq> processed_files s" "process_file e opts R s fn = Inr s'"
  then show "processed_files st \<subseteq> processed_files s'"
    using process_file_frame(1)[of e opts R s fn s'] by auto
next
  fix s assume "processed_files st \<subseteq> processed_files s"
  then show "processed_files st \<subseteq> processed_files (s\<lparr>newfiles := {}\<rparr>)" by simp
qed

lemma gendeps_loop_covers:
  assumes "gendeps_loop e opts R st fiter = Some (Inr st')"
  shows "set fiter \<subseteq> processed_files st'"
proof -
  from gendeps_loop_unfold[OF assms]
  obtain s1 where s1: "gendeps_round e opts R (st\<lparr>newfiles := {}\<rparr>) fiter = Inr s1"
    and stop: "\<not> (follow opts \<and> newfiles s1 \<noteq> {}) \<longrightarrow> st' = s1"
    and cont: "follow opts \<and> newfiles s1 \<noteq> {} \<longrightarrow>
              gendeps_loop e opts R s1 (next_fiter s1) = Some (Inr st')"
    by blast
  from gendeps_round_processed[OF s1] have "set fiter \<subseteq> processed_files s1" by simp
  moreover have "processed_files s1 \<subseteq> processed_files st'"
  proof (cases "follow opts \<and> newfiles s1 \<noteq> {}")
    case True
    with cont show ?thesis by (auto dest: gendeps_loop_processed_mono)
  next
    case False
    with stop show ?thesis by simp
  qed
  ultimately show ?thesis by simp
qed


subsection \<open>Every file in scope is a node\<close>

lemma process_file_in_scope:
  assumes run: "process_file e opts R st fn = Inr st'"
    and inv: "\<forall>f \<in> processed_files st. \<forall>fid. from_identity e opts f = Some fid \<longrightarrow>
                (internal opts \<longrightarrow> root_in (fst fid) R) \<longrightarrow>
                (\<exists>S. allfiles st fid = Some S \<and> sentinel \<in> S)"
  shows "\<forall>f \<in> processed_files st'. \<forall>fid. from_identity e opts f = Some fid \<longrightarrow>
                (internal opts \<longrightarrow> root_in (fst fid) R) \<longrightarrow>
                (\<exists>S. allfiles st' fid = Some S \<and> sentinel \<in> S)"
proof (intro ballI allI impI)
  fix f fid
  assume f: "f \<in> processed_files st'" and fid: "from_identity e opts f = Some fid"
    and ok: "internal opts \<longrightarrow> root_in (fst fid) R"
  show "\<exists>S. allfiles st' fid = Some S \<and> sentinel \<in> S"
  proof (cases "f \<in> processed_files st")
    case True
    with inv fid ok obtain S where S: "allfiles st fid = Some S" "sentinel \<in> S" by blast
    from process_file_allfiles_grow[OF run S(1)] S(2) show ?thesis by auto
  next
    case False
    with f process_file_frame(1)[OF run] have "f = fn" by simp
    with False run fid ok show ?thesis by (auto intro: process_file_sentinel)
  qed
qed

text \<open>
  C3. After a run that returns, every file of the first worklist has been processed, and
  every processed file whose path, \<^verbatim>\<open>__init__.py\<close> removed, has an identity that passes the
  \<^verbatim>\<open>--internal\<close> filter is a key of \<^verbatim>\<open>allfiles\<close> with \<^verbatim>\<open>(None, None)\<close> among its targets,
  whatever its dependencies are.
\<close>

theorem in_scope_file_is_node:
  assumes "gendeps_loop e opts R init_state fiter = Some (Inr st)"
  shows "set fiter \<subseteq> processed_files st \<and>
         (\<forall>fn \<in> processed_files st. \<forall>fid. from_identity e opts fn = Some fid \<longrightarrow>
            (internal opts \<longrightarrow> root_in (fst fid) R) \<longrightarrow>
            (\<exists>S. allfiles st fid = Some S \<and> sentinel \<in> S))"
proof
  show "set fiter \<subseteq> processed_files st" using assms by (rule gendeps_loop_covers)
next
  let ?P = "\<lambda>s. \<forall>f \<in> processed_files s. \<forall>fid. from_identity e opts f = Some fid \<longrightarrow>
                (internal opts \<longrightarrow> root_in (fst fid) R) \<longrightarrow>
                (\<exists>S. allfiles s fid = Some S \<and> sentinel \<in> S)"
  show "?P st"
  proof (rule gendeps_loop_invariant[where P = ?P, OF assms])
    show "?P init_state" by (simp add: init_state_def)
  next
    fix s fn s' assume "?P s" "process_file e opts R s fn = Inr s'"
    then show "?P s'" by (rule process_file_in_scope[rotated])
  next
    fix s assume "?P s" then show "?P (s\<lparr>newfiles := {}\<rparr>)" by simp
  qed
qed

theorem in_scope_file_is_node_witness:
  "set [''/proj/a.py'', ''/proj/b.py'']
     \<subseteq> processed_files (projr (the (gendeps_loop ex_env ex_opts {''/proj''} init_state
                                        [''/proj/a.py'', ''/proj/b.py'']))) \<and>
   (\<exists>S. allfiles (projr (the (gendeps_loop ex_env ex_opts {''/proj''} init_state
                                 [''/proj/a.py'', ''/proj/b.py''])))
            (Some ''/proj'', Some ''pkg'') = Some S \<and> sentinel \<in> S)"
proof -
  let ?r = "gendeps_loop ex_env ex_opts {''/proj''} init_state [''/proj/a.py'', ''/proj/b.py'']"
  have "case ?r of Some (Inr st) \<Rightarrow> True | _ \<Rightarrow> False" by code_simp
  then have l: "?r = Some (Inr (projr (the ?r)))" by (rule run_result)
  have p: "''/proj/pkg/__init__.py'' \<in> processed_files (projr (the ?r))" by code_simp
  have f: "from_identity ex_env ex_opts ''/proj/pkg/__init__.py'' = Some (Some ''/proj'', Some ''pkg'')"
    by code_simp
  have r: "internal ex_opts \<longrightarrow> root_in (fst (Some ''/proj'', Some ''pkg'')) {''/proj''}"
    by code_simp
  from in_scope_file_is_node[OF l] p f r show ?thesis by blast
qed

subsection \<open>No file is extracted twice\<close>

lemma process_file_calls_inv:
  assumes run: "process_file e opts R st fn = Inr st'"
    and inv: "distinct (calls st) \<and> set (calls st) = processed_files st"
  shows "distinct (calls st') \<and> set (calls st') = processed_files st'"
  using process_file_frame(1,2)[OF run] inv by auto

lemma distinct_count_list_le: "distinct xs \<Longrightarrow> count_list xs x = (if x \<in> set xs then 1 else 0)"
  by (induction xs) auto

lemma gendeps_loop_trace:
  assumes "gendeps_loop e opts R st0 fiter = Some (Inr st)"
  shows "\<exists>new. calls st = calls st0 @ new \<and>
           allerrors st = allerrors st0 @
             concat (map (\<lambda>f. snd (find_dependencies e f (verbose opts) (do_pragmas opts))) new)"
proof (rule gendeps_loop_invariant[where
    P = "\<lambda>s. \<exists>new. calls s = calls st0 @ new \<and>
           allerrors s = allerrors st0 @
             concat (map (\<lambda>f. snd (find_dependencies e f (verbose opts) (do_pragmas opts))) new)",
    OF assms])
  show "\<exists>new. calls st0 = calls st0 @ new \<and>
           allerrors st0 = allerrors st0 @
             concat (map (\<lambda>f. snd (find_dependencies e f (verbose opts) (do_pragmas opts))) new)"
    by (rule exI[of _ "[]"]) simp
next
  fix s fn s'
  assume "\<exists>new. calls s = calls st0 @ new \<and>
           allerrors s = allerrors st0 @
             concat (map (\<lambda>f. snd (find_dependencies e f (verbose opts) (do_pragmas opts))) new)"
    and run: "process_file e opts R s fn = Inr s'"
  then obtain new where new: "calls s = calls st0 @ new"
    "allerrors s = allerrors st0 @
       concat (map (\<lambda>f. snd (find_dependencies e f (verbose opts) (do_pragmas opts))) new)"
    by blast
  show "\<exists>new. calls s' = calls st0 @ new \<and>
           allerrors s' = allerrors st0 @
             concat (map (\<lambda>f. snd (find_dependencies e f (verbose opts) (do_pragmas opts))) new)"
  proof (cases "fn \<in> processed_files s")
    case True
    with process_file_frame(2,3)[OF run] new show ?thesis by auto
  next
    case False
    with process_file_frame(2,3)[OF run] new
    have "calls s' = calls st0 @ (new @ [fn]) \<and>
           allerrors s' = allerrors st0 @
             concat (map (\<lambda>f. snd (find_dependencies e f (verbose opts) (do_pragmas opts))) (new @ [fn]))"
      by simp
    then show ?thesis by blast
  qed
next
  fix s
  assume "\<exists>new. calls s = calls st0 @ new \<and>
           allerrors s = allerrors st0 @
             concat (map (\<lambda>f. snd (find_dependencies e f (verbose opts) (do_pragmas opts))) new)"
  then show "\<exists>new. calls (s\<lparr>newfiles := {}\<rparr>) = calls st0 @ new \<and>
           allerrors (s\<lparr>newfiles := {}\<rparr>) = allerrors st0 @
             concat (map (\<lambda>f. snd (find_dependencies e f (verbose opts) (do_pragmas opts))) new)"
    by simp
qed

lemma identity_other_extractor [simp]:
  "to_identity (e\<lparr>find_dependencies := fd\<rparr>) opts dfn = to_identity e opts dfn"
  "from_identity (e\<lparr>find_dependencies := fd\<rparr>) opts fn = from_identity e opts fn"
  by (simp_all add: to_identity_def from_identity_def)

lemma add_dependencies_other_extractor:
  "add_dependencies (e\<lparr>find_dependencies := fd\<rparr>) opts R k st files
     = add_dependencies e opts R k st files"
  by (induction files arbitrary: st) (simp_all add: Let_def split: option.split)

lemma process_file_other_extractor:
  assumes "fn \<in> processed_files st \<or>
           fd fn (verbose opts) (do_pragmas opts) = find_dependencies e fn (verbose opts) (do_pragmas opts)"
  shows "process_file (e\<lparr>find_dependencies := fd\<rparr>) opts R st fn = process_file e opts R st fn"
proof (cases "fn \<in> processed_files st")
  case True
  then show ?thesis by (simp add: process_file_skip)
next
  case False
  with assms have a: "fd fn (verbose opts) (do_pragmas opts)
      = find_dependencies e fn (verbose opts) (do_pragmas opts)" by simp
  have x: "extracted (e\<lparr>find_dependencies := fd\<rparr>) opts st fn = extracted e opts st fn"
    by (simp add: extracted_def a)
  have d: "deps_of (e\<lparr>find_dependencies := fd\<rparr>) opts fn = deps_of e opts fn"
    by (simp add: a)
  show ?thesis
    unfolding process_file_new[OF False] identity_other_extractor x
      add_dependencies_other_extractor d ..
qed

lemma gendeps_round_other_extractor:
  assumes "gendeps_round e opts R st fiter = Inr st'"
    and "\<forall>f \<in> processed_files st' - processed_files st.
           fd f (verbose opts) (do_pragmas opts) = find_dependencies e f (verbose opts) (do_pragmas opts)"
  shows "gendeps_round (e\<lparr>find_dependencies := fd\<rparr>) opts R st fiter = Inr st'"
  using assms
proof (induction fiter arbitrary: st)
  case Nil then show ?case by simp
next
  case (Cons fn fiter)
  from Cons.prems(1) obtain s1 where s1: "process_file e opts R st fn = Inr s1"
    and rest: "gendeps_round e opts R s1 fiter = Inr st'"
    by (rule gendeps_round_Cons)
  have p1: "processed_files s1 = insert fn (processed_files st)"
    by (rule process_file_frame(1)[OF s1])
  have p2: "processed_files st' = processed_files s1 \<union> set fiter"
    by (rule gendeps_round_processed[OF rest])
  have "fn \<in> processed_files st \<or>
           fd fn (verbose opts) (do_pragmas opts) = find_dependencies e fn (verbose opts) (do_pragmas opts)"
    using Cons.prems(2) p1 p2 by auto
  then have a: "process_file (e\<lparr>find_dependencies := fd\<rparr>) opts R st fn = Inr s1"
    using s1 by (simp add: process_file_other_extractor)
  have "\<forall>f \<in> processed_files st' - processed_files s1.
           fd f (verbose opts) (do_pragmas opts) = find_dependencies e f (verbose opts) (do_pragmas opts)"
    using Cons.prems(2) p1 by auto
  from Cons.IH[OF rest this] a show ?case by simp
qed


lemma gendeps_loop_other_extractor:
  assumes "gendeps_loop e opts R st0 fiter = Some (Inr st)"
    and "\<forall>f \<in> processed_files st - processed_files st0.
           fd f (verbose opts) (do_pragmas opts) = find_dependencies e f (verbose opts) (do_pragmas opts)"
  shows "gendeps_loop (e\<lparr>find_dependencies := fd\<rparr>) opts R st0 fiter = Some (Inr st)"
proof -
  define Q where "Q = (\<lambda>e opts R st0 (fiter::path list) (r::error + state).
     \<forall>st. r = Inr st \<longrightarrow> processed_files st0 \<subseteq> processed_files st \<and>
       ((\<forall>f \<in> processed_files st - processed_files st0.
           fd f (verbose opts) (do_pragmas opts) = find_dependencies e f (verbose opts) (do_pragmas opts)) \<longrightarrow>
        gendeps_loop (e\<lparr>find_dependencies := fd\<rparr>) opts R st0 fiter = Some (Inr st)))"
  have "Q e opts R st0 fiter (Inr st)"
  proof (rule gendeps_loop.raw_induct[where P = Q, OF _ assms(1)])
    fix loop e opts R st0 fiter r
    assume IH: "\<And>e opts R st fiter y. loop e opts R st fiter = Some y \<Longrightarrow> Q e opts R st fiter y"
      and body: "(case gendeps_round e opts R (st0\<lparr>newfiles := {}\<rparr>) fiter of
                    Inl err \<Rightarrow> Some (Inl err)
                  | Inr st' \<Rightarrow>
                      if \<not> (follow opts \<and> newfiles st' \<noteq> {}) then Some (Inr st')
                      else loop e opts R st' (next_fiter st')) = Some r"
    show "Q e opts R st0 fiter r"
      unfolding Q_def
    proof (intro allI impI)
      fix st
      assume r: "r = Inr st"
      from body have body': "(case gendeps_round e opts R (st0\<lparr>newfiles := {}\<rparr>) fiter of
                    Inl err \<Rightarrow> Some (Inl err)
                  | Inr st' \<Rightarrow>
                      if \<not> (follow opts \<and> newfiles st' \<noteq> {}) then Some (Inr st')
                      else loop e opts R st' (next_fiter st')) = Some (Inr st)"
        unfolding r .
      from gendeps_loop_body[where loop=loop and e=e and opts=opts and R=R and s=st0 and ws=fiter
             and s'=st, OF body']
      obtain s1 where s1: "gendeps_round e opts R (st0\<lparr>newfiles := {}\<rparr>) fiter = Inr s1"
        and stop: "\<not> (follow opts \<and> newfiles s1 \<noteq> {}) \<longrightarrow> st = s1"
        and cont: "follow opts \<and> newfiles s1 \<noteq> {} \<longrightarrow> loop e opts R s1 (next_fiter s1) = Some (Inr st)"
        by blast
      have p1: "processed_files s1 = processed_files st0 \<union> set fiter"
        using gendeps_round_processed[OF s1] by simp
      show "processed_files st0 \<subseteq> processed_files st \<and>
       ((\<forall>f \<in> processed_files st - processed_files st0.
           fd f (verbose opts) (do_pragmas opts) = find_dependencies e f (verbose opts) (do_pragmas opts)) \<longrightarrow>
        gendeps_loop (e\<lparr>find_dependencies := fd\<rparr>) opts R st0 fiter = Some (Inr st))"
      proof (cases "follow opts \<and> newfiles s1 \<noteq> {}")
        case False
        with stop have eq: "st = s1" by simp
        have "gendeps_loop (e\<lparr>find_dependencies := fd\<rparr>) opts R st0 fiter = Some (Inr st)"
          if agree: "\<forall>f \<in> processed_files st - processed_files st0.
           fd f (verbose opts) (do_pragmas opts) = find_dependencies e f (verbose opts) (do_pragmas opts)"
        proof -
          have "\<forall>f \<in> processed_files s1 - processed_files (st0\<lparr>newfiles := {}\<rparr>).
             fd f (verbose opts) (do_pragmas opts) = find_dependencies e f (verbose opts) (do_pragmas opts)"
            using agree eq by simp
          from gendeps_round_other_extractor[where fd=fd, OF s1 this] False eq
          show ?thesis by (subst gendeps_loop.simps) auto
        qed
        with p1 eq show ?thesis by blast
      next
        case True
        with cont have l: "loop e opts R s1 (next_fiter s1) = Some (Inr st)" by simp
        from IH[OF l] have mono: "processed_files s1 \<subseteq> processed_files st"
          and rec: "(\<forall>f \<in> processed_files st - processed_files s1.
             fd f (verbose opts) (do_pragmas opts) = find_dependencies e f (verbose opts) (do_pragmas opts)) \<longrightarrow>
             gendeps_loop (e\<lparr>find_dependencies := fd\<rparr>) opts R s1 (next_fiter s1) = Some (Inr st)"
          unfolding Q_def by blast+
        have "gendeps_loop (e\<lparr>find_dependencies := fd\<rparr>) opts R st0 fiter = Some (Inr st)"
          if agree: "\<forall>f \<in> processed_files st - processed_files st0.
           fd f (verbose opts) (do_pragmas opts) = find_dependencies e f (verbose opts) (do_pragmas opts)"
        proof -
          have "\<forall>f \<in> processed_files s1 - processed_files (st0\<lparr>newfiles := {}\<rparr>).
             fd f (verbose opts) (do_pragmas opts) = find_dependencies e f (verbose opts) (do_pragmas opts)"
            using agree mono by auto
          from gendeps_round_other_extractor[where fd=fd, OF s1 this]
          have rd: "gendeps_round (e\<lparr>find_dependencies := fd\<rparr>) opts R (st0\<lparr>newfiles := {}\<rparr>) fiter = Inr s1" .
          have "\<forall>f \<in> processed_files st - processed_files s1.
             fd f (verbose opts) (do_pragmas opts) = find_dependencies e f (verbose opts) (do_pragmas opts)"
            using agree p1 by auto
          with rec have "gendeps_loop (e\<lparr>find_dependencies := fd\<rparr>) opts R s1 (next_fiter s1) = Some (Inr st)"
            by blast
          with rd True show ?thesis by (subst gendeps_loop.simps) simp
        qed
        with p1 mono show ?thesis by blast
      qed
    qed
  qed
  with assms(2) show ?thesis unfolding Q_def by blast
qed


text \<open>
  C5. \<open>calls\<close> lists the invocations of \<^verbatim>\<open>find_dependencies\<close>. From a state in which the files
  called so far are the processed ones, each once (the initial state, and the state at the
  start of every later round, for which the loop is entered again), a run that returns has
  called the extractor exactly once for every file of its worklist and at most once for any
  file; a file already processed is passed over with the state unchanged. The trace is
  tied to the extractor: what \<^verbatim>\<open>find_dependencies\<close> reports for the files called in this run
  is appended to \<^verbatim>\<open>allerrors\<close> once for each call, in the order of the calls, and the run is
  the same under any extractor that agrees with this one on the files called in it.
\<close>

theorem extracted_exactly_once:
  assumes "distinct (calls st0)" and "set (calls st0) = processed_files st0"
    and "gendeps_loop e opts R st0 fiter = Some (Inr st)"
  shows "(\<forall>fn \<in> set fiter. count_list (calls st) fn = 1) \<and>
         (\<forall>fn. count_list (calls st) fn = (if fn \<in> processed_files st then 1 else 0)) \<and>
         (\<forall>fn \<in> processed_files st0. process_file e opts R st0 fn = Inr st0) \<and>
         (\<exists>new. calls st = calls st0 @ new \<and>
            allerrors st = allerrors st0 @
              concat (map (\<lambda>f. snd (find_dependencies e f (verbose opts) (do_pragmas opts))) new)) \<and>
         (\<forall>fd. (\<forall>f \<in> processed_files st - processed_files st0.
                  fd f (verbose opts) (do_pragmas opts)
                    = find_dependencies e f (verbose opts) (do_pragmas opts)) \<longrightarrow>
               gendeps_loop (e\<lparr>find_dependencies := fd\<rparr>) opts R st0 fiter = Some (Inr st))"
proof -
  let ?P = "\<lambda>s. distinct (calls s) \<and> set (calls s) = processed_files s"
  have inv: "?P st"
  proof (rule gendeps_loop_invariant[where P = ?P, OF assms(3)])
    show "?P st0" using assms(1,2) by simp
  next
    fix s fn s' assume "?P s" "process_file e opts R s fn = Inr s'"
    then show "?P s'" by (rule process_file_calls_inv[rotated])
  next
    fix s assume "?P s" then show "?P (s\<lparr>newfiles := {}\<rparr>)" by simp
  qed
  then have cnt: "count_list (calls st) fn = (if fn \<in> processed_files st then 1 else 0)" for fn
    using distinct_count_list_le[of "calls st" fn] by simp
  from gendeps_loop_covers[OF assms(3)] cnt
  have one: "\<forall>fn \<in> set fiter. count_list (calls st) fn = 1" by auto
  have skip: "\<forall>fn \<in> processed_files st0. process_file e opts R st0 fn = Inr st0"
    by (simp add: process_file_skip)
  note trace = gendeps_loop_trace[OF assms(3)]
  have ext: "\<forall>fd. (\<forall>f \<in> processed_files st - processed_files st0.
                  fd f (verbose opts) (do_pragmas opts)
                    = find_dependencies e f (verbose opts) (do_pragmas opts)) \<longrightarrow>
               gendeps_loop (e\<lparr>find_dependencies := fd\<rparr>) opts R st0 fiter = Some (Inr st)"
    using gendeps_loop_other_extractor[OF assms(3)] by blast
  from one cnt skip trace ext show ?thesis by blast
qed

theorem extracted_exactly_once_witness:
  "distinct (calls init_state) \<and> set (calls init_state) = processed_files init_state \<and>
   count_list (calls (projr (the (gendeps_loop ex_env ex_opts {''/proj''} init_state
                                    [''/proj/a.py'', ''/proj/b.py''])))) ''/proj/a.py'' = 1 \<and>
   (\<exists>new. calls (projr (the (gendeps_loop ex_env ex_opts {''/proj''} init_state
                                [''/proj/a.py'', ''/proj/b.py''])))
             = calls init_state @ new \<and>
          allerrors (projr (the (gendeps_loop ex_env ex_opts {''/proj''} init_state
                                   [''/proj/a.py'', ''/proj/b.py''])))
             = allerrors init_state @
               concat (map (\<lambda>f. snd (find_dependencies ex_env f (verbose ex_opts) (do_pragmas ex_opts)))
                         new))"
proof -
  let ?r = "gendeps_loop ex_env ex_opts {''/proj''} init_state [''/proj/a.py'', ''/proj/b.py'']"
  have "case ?r of Some (Inr st) \<Rightarrow> True | _ \<Rightarrow> False" by code_simp
  then have l: "?r = Some (Inr (projr (the ?r)))" by (rule run_result)
  have h1: "distinct (calls init_state)" and h2: "set (calls init_state) = processed_files init_state"
    by (simp_all add: init_state_def)
  note t = extracted_exactly_once[OF h1 h2 l]
  from t[THEN conjunct1]
  have "count_list (calls (projr (the ?r))) ''/proj/a.py'' = 1" by simp
  with h1 h2 t[THEN conjunct2, THEN conjunct2, THEN conjunct2, THEN conjunct1]
  show ?thesis by blast
qed

subsection \<open>Termination of the loop\<close>

lemma gendeps_round_newfiles:
  "gendeps_round e opts R st fiter = Inr st' \<Longrightarrow>
     newfiles st' \<subseteq> newfiles st \<union> (\<Union>f \<in> set fiter - processed_files st. set (deps_of e opts f))"
proof (induction fiter arbitrary: st)
  case Nil then show ?case by simp
next
  case (Cons fn fiter)
  from Cons.prems obtain s1 where s1: "process_file e opts R st fn = Inr s1"
    and rest: "gendeps_round e opts R s1 fiter = Inr st'"
    by (rule gendeps_round_Cons)
  note step = process_file_newfiles(2)[OF s1] and pr = process_file_frame(1)[OF s1]
  show ?case
  proof
    fix x assume "x \<in> newfiles st'"
    with Cons.IH[OF rest]
    consider "x \<in> newfiles s1"
      | f where "f \<in> set fiter" "f \<notin> processed_files s1" "x \<in> set (deps_of e opts f)"
      by auto
    then show "x \<in> newfiles st \<union> (\<Union>f \<in> set (fn # fiter) - processed_files st. set (deps_of e opts f))"
    proof cases
      case 1
      with step show ?thesis by (auto split: if_splits)
    next
      case 2
      with pr show ?thesis by auto
    qed
  qed
qed

lemma gendeps_round_newfiles_finite:
  assumes "gendeps_round e opts R st fiter = Inr st'" and "finite (newfiles st)"
  shows "finite (newfiles st')"
proof (rule finite_subset[OF gendeps_round_newfiles[OF assms(1)]])
  show "finite (newfiles st \<union> (\<Union>f \<in> set fiter - processed_files st. set (deps_of e opts f)))"
    using assms(2) by simp
qed

lemma gendeps_loop_step_decreases:
  assumes fin: "finite D" and deps: "\<And>f. set (deps_of e opts f) \<subseteq> D"
    and s1: "gendeps_round e opts R (st\<lparr>newfiles := {}\<rparr>) fiter = Inr s1"
    and ne: "newfiles s1 \<noteq> {}"
  shows "card ((D \<union> set (next_fiter s1)) - processed_files s1)
           < card ((D \<union> set fiter) - processed_files st)"
proof -
  from gendeps_round_newfiles[OF s1]
  have nf: "newfiles s1 \<subseteq> (\<Union>f \<in> set fiter - processed_files st. set (deps_of e opts f))"
    by simp
  with deps have nfD: "newfiles s1 \<subseteq> D" by blast
  with fin have "finite (newfiles s1)" by (rule finite_subset[rotated])
  then have nx: "set (next_fiter s1) = newfiles s1" by (simp add: next_fiter_def)
  from gendeps_round_processed[OF s1]
  have pr: "processed_files s1 = processed_files st \<union> set fiter" by simp
  from ne nf obtain f where f: "f \<in> set fiter" "f \<notin> processed_files st" by blast
  have "(D \<union> set (next_fiter s1)) - processed_files s1 \<subset> (D \<union> set fiter) - processed_files st"
    using nx nfD pr f by auto
  moreover have "finite ((D \<union> set fiter) - processed_files st)" using fin by simp
  ultimately show ?thesis by (rule psubset_card_mono[rotated])
qed

lemma gendeps_loop_returns:
  assumes fin: "finite D" and deps: "\<And>f. set (deps_of e opts f) \<subseteq> D"
  shows "\<exists>r. gendeps_loop e opts R st fiter = Some r"
proof (induction "card ((D \<union> set fiter) - processed_files st)" arbitrary: st fiter rule: less_induct)
  case less
  show ?case
  proof (cases "gendeps_round e opts R (st\<lparr>newfiles := {}\<rparr>) fiter")
    case (Inl err)
    then show ?thesis by (subst gendeps_loop.simps) simp
  next
    case (Inr s1)
    show ?thesis
    proof (cases "follow opts \<and> newfiles s1 \<noteq> {}")
      case False
      with Inr show ?thesis by (subst gendeps_loop.simps) auto
    next
      case True
      then have ne: "newfiles s1 \<noteq> {}" by simp
      from less[OF gendeps_loop_step_decreases[OF fin deps Inr ne]]
      obtain r where "gendeps_loop e opts R s1 (next_fiter s1) = Some r" by blast
      with Inr True show ?thesis by (subst gendeps_loop.simps) auto
    qed
  qed
qed

text \<open>
  C7. When the files that the extractor can return form a finite set, the loop returns from
  every state and every worklist, with an error or with a final state, and so does
  \<^verbatim>\<open>gendeps\<close>; nothing is assumed about cycles among the imports. In the final state the
  processed set contains the one the loop started with.
\<close>

theorem gendeps_loop_terminates:
  assumes "finite (\<Union>f. set (deps_of e opts f))"
  shows "(\<exists>r. gendeps_loop e opts R st fiter = Some r \<and>
              (\<forall>st'. r = Inr st' \<longrightarrow> processed_files st \<subseteq> processed_files st')) \<and>
         (\<exists>out. gendeps e opts args = Some out)"
proof -
  have deps: "set (deps_of e opts f) \<subseteq> (\<Union>f. set (deps_of e opts f))" for f by blast
  note ret = gendeps_loop_returns[OF assms deps]
  from ret[of R st fiter] obtain r where r: "gendeps_loop e opts R st fiter = Some r" by blast
  then have "\<forall>st'. r = Inr st' \<longrightarrow> processed_files st \<subseteq> processed_files st'"
    by (auto dest: gendeps_loop_processed_mono)
  with r have first: "\<exists>r. gendeps_loop e opts R st fiter = Some r \<and>
              (\<forall>st'. r = Inr st' \<longrightarrow> processed_files st \<subseteq> processed_files st')" by blast
  let ?args = "if args = [] then [''.''] else args"
  from ret[of "set (find_roots e ?args (ignores opts))" init_state
              "iter_pyfiles e ?args (ignores opts) False"]
  obtain r' where "gendeps_loop e opts (set (find_roots e ?args (ignores opts))) init_state
              (iter_pyfiles e ?args (ignores opts) False) = Some r'" by blast
  then have "\<exists>out. gendeps e opts args = Some out"
    by (cases r') (auto simp: gendeps_def Let_def split: sum.splits)
  with first show ?thesis by blast
qed

theorem gendeps_loop_terminates_witness:
  "finite (\<Union>f. set (deps_of ex_env ex_opts_external f)) \<and>
   (\<exists>r. gendeps_loop ex_env ex_opts_external {''/proj''} init_state [''/proj/a.py'', ''/proj/b.py'']
          = Some r) \<and>
   (\<exists>out. gendeps ex_env ex_opts_external [''/proj''] = Some out)"
proof -
  have "(\<Union>f. set (deps_of ex_env ex_opts_external f))
          \<subseteq> {''/proj/b.py'', ''/ext/x.py'', ''/proj/pkg/__init__.py'', ''/proj/a.py'',
              ''/tmp/z.py'', ''/ext/y.py''}"
    by (auto simp: ex_env_def ex_find_dependencies_def split: if_splits)
  then have h: "finite (\<Union>f. set (deps_of ex_env ex_opts_external f))"
    by (rule finite_subset) simp
  from gendeps_loop_terminates[OF h, of "{''/proj''}" init_state "[''/proj/a.py'', ''/proj/b.py'']"
         "[''/proj'']"] h
  show ?thesis by blast
qed


subsection \<open>The \<^verbatim>\<open>--internal\<close> filter on dependencies\<close>

text \<open>
  C1 does not hold: with \<^verbatim>\<open>--internal\<close>, the \<^verbatim>\<open>continue\<close> of line 142 skips line 144 as well
  as line 143. \<^verbatim>\<open>/ext/x.py\<close> is imported by \<^verbatim>\<open>/proj/a.py\<close> and its root \<^verbatim>\<open>/ext\<close> is not an
  input root: it is not in \<^verbatim>\<open>newfiles\<close> after \<^verbatim>\<open>a.py\<close> is processed, and the run with
  \<^verbatim>\<open>--follow\<close> ends without having processed it.
\<close>

theorem external_target_not_queued:
  "internal ex_opts \<and> follow ex_opts \<and>
   ''/ext/x.py'' \<in> set (deps_of ex_env ex_opts ''/proj/a.py'') \<and>
   to_identity ex_env ex_opts ''/ext/x.py'' = Some (Some ''/ext'', Some ''x.py'') \<and>
   \<not> root_in (Some ''/ext'') {''/proj''} \<and>
   \<not> isl (process_file ex_env ex_opts {''/proj''} init_state ''/proj/a.py'') \<and>
   ''/ext/x.py'' \<notin> newfiles (projr (process_file ex_env ex_opts {''/proj''} init_state ''/proj/a.py'')) \<and>
   ''/ext/x.py'' \<notin> processed_files (projr (the (gendeps_loop ex_env ex_opts {''/proj''} init_state
                                                    [''/proj/a.py'', ''/proj/b.py''])))"
  by code_simp

lemma add_dependencies_internal:
  assumes "internal opts"
  shows "add_dependencies e opts R k st files = Inr st' \<Longrightarrow> allfiles st k = Some S \<Longrightarrow>
     newfiles st' = newfiles st \<union> {dfn \<in> set files. kept e opts R dfn} \<and>
     allfiles st' k = Some (S \<union> to_identity e opts ` {dfn \<in> set files. kept e opts R dfn})"
proof (induction files arbitrary: st S)
  case Nil then show ?case by simp
next
  case (Cons dfn files)
  from Cons.prems(1) assms obtain t where t: "to_identity e opts dfn = Some t"
    by (cases "to_identity e opts dfn") (auto simp: Let_def)
  show ?case
  proof (cases "root_in (fst t) R")
    case False
    with t have nk: "\<not> kept e opts R dfn" by (simp add: kept_def)
    from False Cons.prems(1) assms t have "add_dependencies e opts R k st files = Inr st'"
      by (simp add: Let_def)
    from Cons.IH[OF this Cons.prems(2)] nk show ?thesis by auto
  next
    case True
    with t have kp: "kept e opts R dfn" by (simp add: kept_def)
    let ?added = "st\<lparr>allfiles := dd_add (allfiles st) k (to_identity e opts dfn),
                       newfiles := insert dfn (newfiles st)\<rparr>"
    from Cons.prems(1) assms t True have run: "add_dependencies e opts R k ?added files = Inr st'"
      by (simp add: Let_def)
    have k: "allfiles ?added k = Some (insert (to_identity e opts dfn) S)"
      using Cons.prems(2) by (simp add: dd_add_def)
    from Cons.IH[OF run k] kp show ?thesis by auto
  qed
qed

lemma process_file_internal_newfiles:
  assumes int: "internal opts" and run: "process_file e opts R st fn = Inr st'"
  shows "newfiles st' \<subseteq> newfiles st \<union> {f \<in> set (deps_of e opts fn). kept e opts R f}"
  using run
proof (cases rule: process_file_cases)
  case old then show ?thesis by simp
next
  case out then show ?thesis by simp
next
  case (scope fid)
  let ?st2 = "(extracted e opts st fn)\<lparr>allfiles := dd_add (allfiles st) fid sentinel\<rparr>"
  obtain S0 where S0: "allfiles ?st2 fid = Some S0" by (simp add: dd_add_def)
  from add_dependencies_internal[OF int scope(4) S0] show ?thesis by simp
qed

lemma gendeps_round_internal_newfiles:
  assumes int: "internal opts"
  shows "gendeps_round e opts R st fiter = Inr st' \<Longrightarrow>
     newfiles st' \<subseteq> newfiles st \<union>
       {f. \<exists>g \<in> processed_files st'. f \<in> set (deps_of e opts g) \<and> kept e opts R f}"
proof (induction fiter arbitrary: st)
  case Nil then show ?case by simp
next
  case (Cons fn fiter)
  from Cons.prems obtain s1 where s1: "process_file e opts R st fn = Inr s1"
    and rest: "gendeps_round e opts R s1 fiter = Inr st'"
    by (rule gendeps_round_Cons)
  have "fn \<in> processed_files s1" using process_file_frame(1)[OF s1] by simp
  then have fn: "fn \<in> processed_files st'" using gendeps_round_processed[OF rest] by simp
  from process_file_internal_newfiles[OF int s1] fn
  have "newfiles s1 \<subseteq> newfiles st \<union>
       {f. \<exists>g \<in> processed_files st'. f \<in> set (deps_of e opts g) \<and> kept e opts R f}"
    by blast
  with Cons.IH[OF rest] show ?case by blast
qed

lemma gendeps_loop_internal_reach:
  assumes run: "gendeps_loop e opts R st0 fiter = Some (Inr st)" and int: "internal opts"
    and p0: "processed_files st0 \<subseteq> A \<union>
       {f. \<exists>g \<in> processed_files st0. f \<in> set (deps_of e opts g) \<and> kept e opts R f}"
    and w0: "set fiter \<subseteq> A \<union>
       {f. \<exists>g \<in> processed_files st0. f \<in> set (deps_of e opts g) \<and> kept e opts R f}"
  shows "processed_files st \<subseteq> A \<union>
       {f. \<exists>g \<in> processed_files st. f \<in> set (deps_of e opts g) \<and> kept e opts R f}"
proof -
  define K where "K = (\<lambda>e opts R (s::state).
     {f. \<exists>g \<in> processed_files s. f \<in> set (deps_of e opts g) \<and> kept e opts R f})"
  have Kmono: "processed_files s \<subseteq> processed_files s' \<Longrightarrow> K e opts R s \<subseteq> K e opts R s'"
    for e opts R s s' unfolding K_def by blast
  define Q where "Q = (\<lambda>e opts R st0 (fiter::path list) (r::error + state).
     internal opts \<longrightarrow> (\<forall>st. r = Inr st \<longrightarrow>
        processed_files st0 \<subseteq> A \<union> K e opts R st0 \<longrightarrow> set fiter \<subseteq> A \<union> K e opts R st0 \<longrightarrow>
        processed_files st \<subseteq> A \<union> K e opts R st))"
  have "Q e opts R st0 fiter (Inr st)"
  proof (rule gendeps_loop.raw_induct[where P = Q, OF _ run])
    fix loop e opts R st0 fiter r
    assume IH: "\<And>e opts R st fiter y. loop e opts R st fiter = Some y \<Longrightarrow> Q e opts R st fiter y"
      and body: "(case gendeps_round e opts R (st0\<lparr>newfiles := {}\<rparr>) fiter of
                    Inl err \<Rightarrow> Some (Inl err)
                  | Inr st' \<Rightarrow>
                      if \<not> (follow opts \<and> newfiles st' \<noteq> {}) then Some (Inr st')
                      else loop e opts R st' (next_fiter st')) = Some r"
    show "Q e opts R st0 fiter r"
      unfolding Q_def
    proof (intro allI impI)
      fix st
      assume int: "internal opts" and r: "r = Inr st"
        and p0: "processed_files st0 \<subseteq> A \<union> K e opts R st0"
        and w0: "set fiter \<subseteq> A \<union> K e opts R st0"
      from body have body': "(case gendeps_round e opts R (st0\<lparr>newfiles := {}\<rparr>) fiter of
                    Inl err \<Rightarrow> Some (Inl err)
                  | Inr st' \<Rightarrow>
                      if \<not> (follow opts \<and> newfiles st' \<noteq> {}) then Some (Inr st')
                      else loop e opts R st' (next_fiter st')) = Some (Inr st)"
        unfolding r .
      from gendeps_loop_body[where loop=loop and e=e and opts=opts and R=R and s=st0 and ws=fiter
             and s'=st, OF body']
      obtain s1 where s1: "gendeps_round e opts R (st0\<lparr>newfiles := {}\<rparr>) fiter = Inr s1"
        and stop: "\<not> (follow opts \<and> newfiles s1 \<noteq> {}) \<longrightarrow> st = s1"
        and cont: "follow opts \<and> newfiles s1 \<noteq> {} \<longrightarrow> loop e opts R s1 (next_fiter s1) = Some (Inr st)"
        by blast
      have p1: "processed_files s1 = processed_files st0 \<union> set fiter"
        using gendeps_round_processed[OF s1] by simp
      then have "K e opts R st0 \<subseteq> K e opts R s1" by (intro Kmono) simp
      with p0 w0 p1 have ps1: "processed_files s1 \<subseteq> A \<union> K e opts R s1" by blast
      show "processed_files st \<subseteq> A \<union> K e opts R st"
      proof (cases "follow opts \<and> newfiles s1 \<noteq> {}")
        case False
        with stop ps1 show ?thesis by simp
      next
        case True
        with cont have l: "loop e opts R s1 (next_fiter s1) = Some (Inr st)" by simp
        have fin: "finite (newfiles s1)"
          by (rule gendeps_round_newfiles_finite[OF s1]) simp
        have "newfiles s1 \<subseteq> K e opts R s1"
          using gendeps_round_internal_newfiles[OF int s1] unfolding K_def by simp
        with fin have w1: "set (next_fiter s1) \<subseteq> A \<union> K e opts R s1"
          by (auto simp: next_fiter_def)
        from IH[OF l] int ps1 w1 show ?thesis unfolding Q_def by blast
      qed
    qed
  qed
  with int p0 w0 show ?thesis unfolding Q_def K_def by blast
qed


text \<open>
  C1, amended. With \<^verbatim>\<open>--internal\<close>, the dependencies of a file whose identity has a root
  among the input roots are recorded as targets and put into \<^verbatim>\<open>newfiles\<close>, and no others:
  a dependency with a root outside is neither recorded nor queued. So in a run that
  returns, every processed file is a file of the first worklist or such a dependency of a
  processed file.
\<close>

theorem internal_filter_drops_edge_and_discovery:
  assumes "internal opts"
  shows "(add_dependencies e opts R k st files = Inr st' \<and> allfiles st k = Some S \<longrightarrow>
           newfiles st' = newfiles st \<union> {dfn \<in> set files. kept e opts R dfn} \<and>
           allfiles st' k = Some (S \<union> to_identity e opts ` {dfn \<in> set files. kept e opts R dfn})) \<and>
         (gendeps_loop e opts R init_state fiter = Some (Inr st'') \<longrightarrow>
           (\<forall>f \<in> processed_files st''. f \<in> set fiter \<or>
              (\<exists>g \<in> processed_files st''. f \<in> set (deps_of e opts g) \<and> kept e opts R f)))"
proof (intro conjI impI)
  assume a: "add_dependencies e opts R k st files = Inr st' \<and> allfiles st k = Some S"
  from add_dependencies_internal[OF assms, of e R k st files st' S] a
  show "newfiles st' = newfiles st \<union> {dfn \<in> set files. kept e opts R dfn}"
    and "allfiles st' k = Some (S \<union> to_identity e opts ` {dfn \<in> set files. kept e opts R dfn})"
    by blast+
next
  assume run: "gendeps_loop e opts R init_state fiter = Some (Inr st'')"
  have "processed_files st'' \<subseteq> set fiter \<union>
       {f. \<exists>g \<in> processed_files st''. f \<in> set (deps_of e opts g) \<and> kept e opts R f}"
    by (rule gendeps_loop_internal_reach[OF run assms]) (simp_all add: init_state_def)
  then show "\<forall>f \<in> processed_files st''. f \<in> set fiter \<or>
              (\<exists>g \<in> processed_files st''. f \<in> set (deps_of e opts g) \<and> kept e opts R f)"
    by blast
qed

theorem internal_filter_drops_edge_and_discovery_witness:
  "internal ex_opts \<and>
   newfiles (projr (add_dependencies ex_env ex_opts {''/proj''} (Some ''/proj'', Some ''a.py'')
       (init_state\<lparr>allfiles := [(Some ''/proj'', Some ''a.py'') \<mapsto> {sentinel}]\<rparr>)
       [''/proj/b.py'', ''/ext/x.py'']))
     = newfiles init_state \<union> {dfn \<in> set [''/proj/b.py'', ''/ext/x.py'']. kept ex_env ex_opts {''/proj''} dfn} \<and>
   ''/proj/pkg/__init__.py''
     \<in> processed_files (projr (the (gendeps_loop ex_env ex_opts {''/proj''} init_state
                                       [''/proj/a.py'', ''/proj/b.py'']))) \<and>
   (''/proj/pkg/__init__.py'' \<in> set [''/proj/a.py'', ''/proj/b.py''] \<or>
    kept ex_env ex_opts {''/proj''} ''/proj/pkg/__init__.py'')"
proof -
  let ?st = "init_state\<lparr>allfiles := [(Some ''/proj'', Some ''a.py'') \<mapsto> {sentinel}]\<rparr>"
  let ?r = "add_dependencies ex_env ex_opts {''/proj''} (Some ''/proj'', Some ''a.py'') ?st
              [''/proj/b.py'', ''/ext/x.py'']"
  let ?l = "gendeps_loop ex_env ex_opts {''/proj''} init_state [''/proj/a.py'', ''/proj/b.py'']"
  have h1: "internal ex_opts" by (simp add: ex_opts_def)
  have "\<not> isl ?r" by code_simp
  then have h2: "?r = Inr (projr ?r)" by simp
  have h3: "allfiles ?st (Some ''/proj'', Some ''a.py'') = Some {sentinel}" by simp
  have "case ?l of Some (Inr st) \<Rightarrow> True | _ \<Rightarrow> False" by code_simp
  then have h4: "?l = Some (Inr (projr (the ?l)))" by (rule run_result)
  have p: "''/proj/pkg/__init__.py'' \<in> processed_files (projr (the ?l))" by code_simp
  note t = internal_filter_drops_edge_and_discovery[OF h1, of ex_env "{''/proj''}"
             "(Some ''/proj'', Some ''a.py'')" ?st "[''/proj/b.py'', ''/ext/x.py'']" "projr ?r"
             "{sentinel}" "[''/proj/a.py'', ''/proj/b.py'']" "projr (the ?l)"]
  from t[THEN conjunct1] h2 h3
  have "newfiles (projr ?r)
     = newfiles ?st \<union> {dfn \<in> set [''/proj/b.py'', ''/ext/x.py'']. kept ex_env ex_opts {''/proj''} dfn}"
    by blast
  then have a: "newfiles (projr ?r)
     = newfiles init_state \<union> {dfn \<in> set [''/proj/b.py'', ''/ext/x.py'']. kept ex_env ex_opts {''/proj''} dfn}"
    by simp
  from t[THEN conjunct2] h4 p
  have b: "''/proj/pkg/__init__.py'' \<in> set [''/proj/a.py'', ''/proj/b.py''] \<or>
    kept ex_env ex_opts {''/proj''} ''/proj/pkg/__init__.py''"
    by blast
  from h1 a p b show ?thesis by blast
qed

subsection \<open>A dependency without identity\<close>

text \<open>
  C2 fails on the code. \<^verbatim>\<open>/proj/c.py\<close> imports \<^verbatim>\<open>/tmp/z.py\<close>, for which \<^verbatim>\<open>relfile\<close> returns
  \<^verbatim>\<open>None\<close>. Without \<^verbatim>\<open>--internal\<close> line 143 puts \<^verbatim>\<open>None\<close> among the targets of \<^verbatim>\<open>c.py\<close> and
  line 144 puts \<^verbatim>\<open>/tmp/z.py\<close> into \<^verbatim>\<open>newfiles\<close>; with \<^verbatim>\<open>--internal\<close> line 141 raises
  \<^verbatim>\<open>TypeError\<close>. For the source side, line 128 tests \<^verbatim>\<open>from_ is None\<close>.
\<close>

theorem null_target_is_recorded:
  "to_identity ex_env ex_opts_external ''/tmp/z.py'' = None \<and>
   \<not> isl (process_file ex_env ex_opts_external {''/proj''} init_state ''/proj/c.py'') \<and>
   allfiles (projr (process_file ex_env ex_opts_external {''/proj''} init_state ''/proj/c.py''))
     (Some ''/proj'', Some ''c.py'') = Some {None, sentinel} \<and>
   newfiles (projr (process_file ex_env ex_opts_external {''/proj''} init_state ''/proj/c.py''))
     = {''/tmp/z.py''} \<and>
   isl (process_file ex_env ex_opts {''/proj''} init_state ''/proj/c.py'') \<and>
   projl (process_file ex_env ex_opts {''/proj''} init_state ''/proj/c.py'') = TypeError"
  by code_simp

subsection \<open>The next worklist\<close>

text \<open>
  C6 does not hold as worded: the next worklist is the sorted \<^verbatim>\<open>newfiles\<close>, from which the
  processed files are not removed. After the first round on \<^verbatim>\<open>a.py\<close> and \<^verbatim>\<open>b.py\<close>, which
  import each other, both are in the next worklist.
\<close>

theorem next_worklist_keeps_processed_files:
  "follow ex_opts \<and> \<not> isl ex_round1 \<and>
   next_fiter (projr ex_round1) = [''/proj/a.py'', ''/proj/b.py'', ''/proj/pkg/__init__.py''] \<and>
   spec_next_worklist (projr ex_round1) = [''/proj/pkg/__init__.py''] \<and>
   next_fiter (projr ex_round1) \<noteq> spec_next_worklist (projr ex_round1)"
  by code_simp

text \<open>
  C6, amended. After a round that ends in state \<open>s1\<close>: without \<^verbatim>\<open>--follow\<close>, or when no file
  was put into \<^verbatim>\<open>newfiles\<close>, the loop returns \<open>s1\<close>; otherwise it goes on from \<open>s1\<close> with
  the worklist \<open>next_fiter s1\<close>, which is sorted, has no duplicates and has exactly the files
  of \<^verbatim>\<open>newfiles\<close>, all of them dependencies of files processed in this round.
\<close>

theorem next_worklist_is_sorted_newfiles:
  assumes "gendeps_round e opts R (st\<lparr>newfiles := {}\<rparr>) fiter = Inr s1"
  shows "gendeps_loop e opts R st fiter =
           (if follow opts \<and> newfiles s1 \<noteq> {} then gendeps_loop e opts R s1 (next_fiter s1)
            else Some (Inr s1)) \<and>
         sorted (next_fiter s1) \<and> distinct (next_fiter s1) \<and>
         set (next_fiter s1) = newfiles s1 \<and>
         newfiles s1 \<subseteq> (\<Union>f \<in> processed_files s1 - processed_files st. set (deps_of e opts f))"
proof -
  have fin: "finite (newfiles s1)"
    by (rule gendeps_round_newfiles_finite[OF assms]) simp
  have "newfiles s1 \<subseteq> (\<Union>f \<in> set fiter - processed_files st. set (deps_of e opts f))"
    using gendeps_round_newfiles[OF assms] by simp
  moreover have "processed_files s1 = processed_files st \<union> set fiter"
    using gendeps_round_processed[OF assms] by simp
  ultimately
  have sub: "newfiles s1 \<subseteq> (\<Union>f \<in> processed_files s1 - processed_files st. set (deps_of e opts f))"
    by auto
  have loop: "gendeps_loop e opts R st fiter =
           (if follow opts \<and> newfiles s1 \<noteq> {} then gendeps_loop e opts R s1 (next_fiter s1)
            else Some (Inr s1))"
    by (subst gendeps_loop.simps) (simp add: assms)
  from fin have "sorted (next_fiter s1)" "distinct (next_fiter s1)" "set (next_fiter s1) = newfiles s1"
    by (simp_all add: next_fiter_def)
  with loop sub show ?thesis by blast
qed

theorem next_worklist_is_sorted_newfiles_witness:
  "gendeps_loop ex_env ex_opts {''/proj''} init_state [''/proj/a.py'', ''/proj/b.py'']
     = gendeps_loop ex_env ex_opts {''/proj''} (projr ex_round1)
         [''/proj/a.py'', ''/proj/b.py'', ''/proj/pkg/__init__.py'']"
proof -
  have "\<not> isl ex_round1" by code_simp
  then have h: "gendeps_round ex_env ex_opts {''/proj''} (init_state\<lparr>newfiles := {}\<rparr>)
                 [''/proj/a.py'', ''/proj/b.py''] = Inr (projr ex_round1)"
    by (simp add: ex_round1_def)
  have f: "follow ex_opts" by (simp add: ex_opts_def)
  have n: "next_fiter (projr ex_round1) = [''/proj/a.py'', ''/proj/b.py'', ''/proj/pkg/__init__.py'']"
    by code_simp
  have ne: "newfiles (projr ex_round1) \<noteq> {}" by code_simp
  from next_worklist_is_sorted_newfiles[OF h, THEN conjunct1] f n ne show ?thesis by simp
qed


subsection \<open>Packages and their \<^verbatim>\<open>__init__.py\<close>\<close>





subsection \<open>The report\<close>

lemma error_names_eq: "error_names errs k = {n. (k, n) \<in> set errs}"
  by (auto simp: error_names_def image_iff)

lemma finite_error_names: "finite (error_names errs k)"
  by (simp add: error_names_def)

text \<open>
  C8. The report has one block for the modules that could not be imported, whatever the
  verbosity, followed, from verbosity 2 on, by one block for the symbols that are not
  modules. A block is empty when no error of its kind was collected; otherwise it is an
  empty line, the heading, and one line for each name that occurs with that kind, the names
  in ascending order and each once.
\<close>

theorem error_report:
  "report_errors opts errs =
     report_one errs (''Modules that could not be imported:'', ERROR_IMPORT, WARNING)
     @ (if 2 \<le> verbose opts
        then report_one errs (''Symbols that could not be imported as modules:'', ERROR_SYMBOL, DEBUG)
        else []) \<and>
   (\<exists>ns. sorted ns \<and> distinct ns \<and> set ns = {n. (k, n) \<in> set errs} \<and>
         report_one errs (msg, k, efun) =
           (if ns = [] then []
            else [(efun, ''''), (efun, msg)] @ map (\<lambda>n. (efun, ''  '' @ n)) ns))"
proof
  show "report_errors opts errs =
     report_one errs (''Modules that could not be imported:'', ERROR_IMPORT, WARNING)
     @ (if 2 \<le> verbose opts
        then report_one errs (''Symbols that could not be imported as modules:'', ERROR_SYMBOL, DEBUG)
        else [])"
    by (simp add: report_errors_def reports_def)
next
  let ?ns = "sorted_list_of_set (error_names errs k)"
  have "sorted ?ns" "distinct ?ns" by simp_all
  moreover have "set ?ns = {n. (k, n) \<in> set errs}"
    using finite_error_names[of errs k] by (simp add: error_names_eq)
  moreover have "?ns = [] \<longleftrightarrow> error_names errs k = {}"
    using finite_error_names[of errs k] by (simp add: sorted_list_of_set_eq_Nil_iff)
  then have "report_one errs (msg, k, efun) =
           (if ?ns = [] then []
            else [(efun, ''''), (efun, msg)] @ map (\<lambda>n. (efun, ''  '' @ n)) ?ns)"
    by (simp add: report_one_def Let_def)
  ultimately show "\<exists>ns. sorted ns \<and> distinct ns \<and> set ns = {n. (k, n) \<in> set errs} \<and>
         report_one errs (msg, k, efun) =
           (if ns = [] then []
            else [(efun, ''''), (efun, msg)] @ map (\<lambda>n. (efun, ''  '' @ n)) ns)"
    by blast
qed

lemma error_report_example:
  "report_errors ex_opts
     [(ERROR_IMPORT, ''zlib''), (ERROR_SYMBOL, ''os.path.join''), (ERROR_IMPORT, ''zlib''),
      (ERROR_IMPORT, ''abc'')]
   = [(WARNING, ''''), (WARNING, ''Modules that could not be imported:''),
      (WARNING, ''  abc''), (WARNING, ''  zlib'')]"
  by code_simp


subsection \<open>Errors of the configuration and errors of the extractor\<close>

lemma check_paths_fails:
  "\<exists>arg \<in> set args. \<not> exists e (realpath e arg) \<Longrightarrow>
     \<exists>fn. \<not> exists e fn \<and>
       check_paths e args =
         Inl (ParserError (''Filename '' @ [CHR 0x27] @ fn @ [CHR 0x27] @ '' does not exist.''))"
proof (induction args)
  case Nil then show ?case by simp
next
  case (Cons arg args)
  show ?case
  proof (cases "exists e (realpath e arg)")
    case True
    with Cons.prems have "\<exists>arg \<in> set args. \<not> exists e (realpath e arg)" by auto
    from Cons.IH[OF this] True show ?thesis by (simp add: Let_def)
  next
    case False
    then show ?thesis by (auto simp: Let_def)
  qed
qed

lemma check_paths_passes:
  "\<forall>arg \<in> set args. exists e (realpath e arg) \<Longrightarrow> check_paths e args = Inr ()"
  by (induction args) (simp_all add: Let_def)

lemma check_paths_extractor [simp]:
  "check_paths (e\<lparr>find_dependencies := fd\<rparr>) args = check_paths e args"
  by (induction args) (simp_all add: Let_def)

lemma gendeps_missing_path:
  assumes "\<not> print_roots opts"
    and "\<exists>arg \<in> set (if args = [] then [''.''] else args). \<not> exists e (realpath e arg)"
  shows "\<exists>fn. \<not> exists e fn \<and> (\<forall>fd. gendeps (e\<lparr>find_dependencies := fd\<rparr>) opts args =
           Some (Inl (ParserError (''Filename '' @ [CHR 0x27] @ fn @ [CHR 0x27] @ '' does not exist.''))))"
proof -
  from check_paths_fails[OF assms(2)] obtain fn where fn: "\<not> exists e fn"
    "check_paths e (if args = [] then [''.''] else args) =
         Inl (ParserError (''Filename '' @ [CHR 0x27] @ fn @ [CHR 0x27] @ '' does not exist.''))"
    by blast
  have "gendeps (e\<lparr>find_dependencies := fd\<rparr>) opts args =
           Some (Inl (ParserError (''Filename '' @ [CHR 0x27] @ fn @ [CHR 0x27] @ '' does not exist.'')))" for fd
    using assms(1) fn(2) by (simp add: gendeps_def Let_def)
  with fn(1) show ?thesis by blast
qed

lemma gendeps_no_roots:
  assumes "\<not> print_roots opts"
    and "\<forall>arg \<in> set (if args = [] then [''.''] else args). exists e (realpath e arg)"
    and "internal opts" and "find_roots e (if args = [] then [''.''] else args) (ignores opts) = []"
  shows "gendeps (e\<lparr>find_dependencies := fd\<rparr>) opts args = Some (Inl (ParserError no_roots_message))"
  using assms(1,3,4) check_paths_passes[OF assms(2)] by (simp add: gendeps_def Let_def)


lemma without_errors_simps [simp]:
  "relfile (without_errors e) = relfile e"
  "fst (find_dependencies (without_errors e) fn v p) = fst (find_dependencies e fn v p)"
  "snd (find_dependencies (without_errors e) fn v p) = []"
  "to_identity (without_errors e) opts dfn = to_identity e opts dfn"
  "from_identity (without_errors e) opts fn = from_identity e opts fn"
  by (simp_all add: without_errors_def to_identity_def from_identity_def)

lemma forget_errors_simps [simp]:
  "allfiles (forget_errors st) = allfiles st"
  "processed_files (forget_errors st) = processed_files st"
  "newfiles (forget_errors st) = newfiles st"
  "calls (forget_errors st) = calls st"
  "allerrors (forget_errors st) = []"
  by (simp_all add: forget_errors_def)

lemma forget_errors_update:
  "(forget_errors st)\<lparr>newfiles := n\<rparr> = forget_errors (st\<lparr>newfiles := n\<rparr>)"
  "(forget_errors st)\<lparr>allfiles := m\<rparr> = forget_errors (st\<lparr>allfiles := m\<rparr>)"
  by (simp_all add: forget_errors_def)

lemma forget_errors_extracted:
  "extracted (without_errors e) opts (forget_errors st) fn = forget_errors (extracted e opts st fn)"
  by (simp add: extracted_def forget_errors_def)

lemma add_dependencies_forget:
  "add_dependencies (without_errors e) opts R k (forget_errors st) files
     = map_sum id forget_errors (add_dependencies e opts R k st files)"
proof (induction files arbitrary: st)
  case Nil then show ?case by simp
next
  case (Cons dfn files)
  let ?added = "st\<lparr>allfiles := dd_add (allfiles st) k (to_identity e opts dfn),
                     newfiles := insert dfn (newfiles st)\<rparr>"
  have a: "(forget_errors st)\<lparr>allfiles := dd_add (allfiles st) k (to_identity e opts dfn),
                     newfiles := insert dfn (newfiles st)\<rparr> = forget_errors ?added"
    by (simp add: forget_errors_def)
  show ?case
    by (simp add: Let_def a Cons.IH split: option.split)
qed

lemma process_file_forget:
  "process_file (without_errors e) opts R (forget_errors st) fn
     = map_sum id forget_errors (process_file e opts R st fn)"
proof (cases "fn \<in> processed_files st")
  case True
  then show ?thesis by (simp add: process_file_skip)
next
  case False
  then have n: "fn \<notin> processed_files (forget_errors st)" by simp
  note l = process_file_new[OF n, of "without_errors e" opts R]
    and r = process_file_new[OF False, of e opts R]
  show ?thesis
  proof (cases "from_identity e opts fn")
    case None
    then show ?thesis unfolding l r by (simp add: forget_errors_extracted)
  next
    case (Some fid)
    show ?thesis
    proof (cases "internal opts \<and> \<not> root_in (fst fid) R")
      case True
      have "process_file (without_errors e) opts R (forget_errors st) fn
            = Inr (forget_errors (extracted e opts st fn))"
        unfolding l by (simp only: without_errors_simps Some option.case if_P[OF True]
                          forget_errors_extracted)
      moreover have "process_file e opts R st fn = Inr (extracted e opts st fn)"
        unfolding r by (simp only: Some option.case if_P[OF True])
      ultimately show ?thesis by simp
    next
      case nf: False
      have b: "(forget_errors (extracted e opts st fn))\<lparr>allfiles := dd_add (allfiles st) fid sentinel\<rparr>
        = forget_errors ((extracted e opts st fn)\<lparr>allfiles := dd_add (allfiles st) fid sentinel\<rparr>)"
        by (rule forget_errors_update)
      have "process_file (without_errors e) opts R (forget_errors st) fn
          = add_dependencies (without_errors e) opts R fid
              (forget_errors ((extracted e opts st fn)\<lparr>allfiles := dd_add (allfiles st) fid sentinel\<rparr>))
              (deps_of e opts fn)"
        unfolding l by (simp only: without_errors_simps Some option.case if_not_P[OF nf]
                          forget_errors_extracted forget_errors_simps forget_errors_update)
      also have "\<dots> = map_sum id forget_errors (add_dependencies e opts R fid
              ((extracted e opts st fn)\<lparr>allfiles := dd_add (allfiles st) fid sentinel\<rparr>)
              (deps_of e opts fn))"
        by (rule add_dependencies_forget)
      also have "\<dots> = map_sum id forget_errors (process_file e opts R st fn)"
        unfolding r by (simp only: Some option.case if_not_P[OF nf])
      finally show ?thesis .
    qed
  qed
qed

lemma gendeps_round_forget:
  "gendeps_round (without_errors e) opts R (forget_errors st) fiter
     = map_sum id forget_errors (gendeps_round e opts R st fiter)"
proof (induction fiter arbitrary: st)
  case Nil then show ?case by simp
next
  case (Cons fn fiter)
  show ?case
  proof (cases "process_file e opts R st fn")
    case (Inl err)
    then have "process_file (without_errors e) opts R (forget_errors st) fn = Inl err"
      by (simp add: process_file_forget)
    with Inl show ?thesis by simp
  next
    case (Inr s1)
    then have "process_file (without_errors e) opts R (forget_errors st) fn = Inr (forget_errors s1)"
      by (simp add: process_file_forget)
    with Inr Cons.IH[of s1] show ?thesis by simp
  qed
qed

lemma next_fiter_forget [simp]: "next_fiter (forget_errors st) = next_fiter st"
  by (simp add: next_fiter_def)


lemma gendeps_loop_forget_1:
  assumes "gendeps_loop e opts R st fiter = Some r"
  shows "gendeps_loop (without_errors e) opts R (forget_errors st) fiter
           = Some (map_sum id forget_errors r)"
proof -
  define Q where "Q = (\<lambda>e opts R st (fiter::path list) (r::error + state).
     gendeps_loop (without_errors e) opts R (forget_errors st) fiter
       = Some (map_sum id forget_errors r))"
  have "Q e opts R st fiter r"
  proof (rule gendeps_loop.raw_induct[where P = Q, OF _ assms])
    fix loop e opts R st fiter r
    assume IH: "\<And>e opts R st fiter y. loop e opts R st fiter = Some y \<Longrightarrow> Q e opts R st fiter y"
      and body: "(case gendeps_round e opts R (st\<lparr>newfiles := {}\<rparr>) fiter of
                    Inl err \<Rightarrow> Some (Inl err)
                  | Inr st' \<Rightarrow>
                      if \<not> (follow opts \<and> newfiles st' \<noteq> {}) then Some (Inr st')
                      else loop e opts R st' (next_fiter st')) = Some r"
    note rf = gendeps_round_forget[of e opts R "st\<lparr>newfiles := {}\<rparr>" fiter,
                unfolded forget_errors_update[symmetric]]
    show "Q e opts R st fiter r"
      unfolding Q_def
    proof (cases "gendeps_round e opts R (st\<lparr>newfiles := {}\<rparr>) fiter")
      case (Inl err)
      with body have "r = Inl err" by simp
      with Inl rf show "gendeps_loop (without_errors e) opts R (forget_errors st) fiter
           = Some (map_sum id forget_errors r)"
        by (subst gendeps_loop.simps) simp
    next
      case (Inr s1)
      with rf have rf': "gendeps_round (without_errors e) opts R ((forget_errors st)\<lparr>newfiles := {}\<rparr>) fiter
          = Inr (forget_errors s1)" by simp
      show "gendeps_loop (without_errors e) opts R (forget_errors st) fiter
           = Some (map_sum id forget_errors r)"
      proof (cases "follow opts \<and> newfiles s1 \<noteq> {}")
        case False
        with body Inr have "r = Inr s1" by auto
        with False rf' show ?thesis by (subst gendeps_loop.simps) auto
      next
        case True
        with body Inr have "loop e opts R s1 (next_fiter s1) = Some r" by simp
        from IH[OF this] have "gendeps_loop (without_errors e) opts R (forget_errors s1) (next_fiter s1)
           = Some (map_sum id forget_errors r)" by (simp add: Q_def)
        with True rf' show ?thesis by (subst gendeps_loop.simps) simp
      qed
    qed
  qed
  then show ?thesis by (simp add: Q_def)
qed

lemma gendeps_loop_forget_2:
  assumes "gendeps_loop (without_errors e) opts R (forget_errors st) fiter = Some r'"
  shows "\<exists>r. gendeps_loop e opts R st fiter = Some r"
proof -
  define Q where "Q = (\<lambda>e0 opts R s0 (fiter::path list) (r'::error + state).
     \<forall>e st. e0 = without_errors e \<and> s0 = forget_errors st \<longrightarrow>
        (\<exists>r. gendeps_loop e opts R st fiter = Some r))"
  have "Q (without_errors e) opts R (forget_errors st) fiter r'"
  proof (rule gendeps_loop.raw_induct[where P = Q, OF _ assms])
    fix loop e0 opts R s0 fiter r'
    assume IH: "\<And>e opts R st fiter y. loop e opts R st fiter = Some y \<Longrightarrow> Q e opts R st fiter y"
      and body: "(case gendeps_round e0 opts R (s0\<lparr>newfiles := {}\<rparr>) fiter of
                    Inl err \<Rightarrow> Some (Inl err)
                  | Inr st' \<Rightarrow>
                      if \<not> (follow opts \<and> newfiles st' \<noteq> {}) then Some (Inr st')
                      else loop e0 opts R st' (next_fiter st')) = Some r'"
    show "Q e0 opts R s0 fiter r'"
      unfolding Q_def
    proof (intro allI impI)
      fix e st assume eq: "e0 = without_errors e \<and> s0 = forget_errors st"
      note rf = gendeps_round_forget[of e opts R "st\<lparr>newfiles := {}\<rparr>" fiter,
                  unfolded forget_errors_update[symmetric]]
      show "\<exists>r. gendeps_loop e opts R st fiter = Some r"
      proof (cases "gendeps_round e opts R (st\<lparr>newfiles := {}\<rparr>) fiter")
        case (Inl err)
        then show ?thesis by (subst gendeps_loop.simps) simp
      next
        case (Inr s1)
        with rf have rf': "gendeps_round (without_errors e) opts R ((forget_errors st)\<lparr>newfiles := {}\<rparr>) fiter
          = Inr (forget_errors s1)" by simp
        show ?thesis
        proof (cases "follow opts \<and> newfiles s1 \<noteq> {}")
          case False
          with Inr show ?thesis by (subst gendeps_loop.simps) auto
        next
          case True
          from body eq rf' True
          have "loop (without_errors e) opts R (forget_errors s1) (next_fiter s1) = Some r'"
            by simp
          from IH[OF this] obtain r where "gendeps_loop e opts R s1 (next_fiter s1) = Some r"
            unfolding Q_def by blast
          with Inr True show ?thesis by (subst gendeps_loop.simps) simp
        qed
      qed
    qed
  qed
  then show ?thesis unfolding Q_def by blast
qed

lemma gendeps_loop_forget:
  "gendeps_loop (without_errors e) opts R (forget_errors st) fiter
     = map_option (map_sum id forget_errors) (gendeps_loop e opts R st fiter)"
proof (cases "gendeps_loop e opts R st fiter")
  case (Some r)
  from gendeps_loop_forget_1[OF Some] Some show ?thesis by simp
next
  case None
  have "gendeps_loop (without_errors e) opts R (forget_errors st) fiter = None"
  proof (rule ccontr)
    assume "gendeps_loop (without_errors e) opts R (forget_errors st) fiter \<noteq> None"
    then obtain r' where "gendeps_loop (without_errors e) opts R (forget_errors st) fiter = Some r'"
      by blast
    from gendeps_loop_forget_2[OF this] None show False by simp
  qed
  with None show ?thesis by simp
qed

lemma gendeps_loop_allerrors:
  assumes "gendeps_loop e opts R st fiter = Some (Inr st')"
    and "allerrors st = concat (map (\<lambda>f. snd (find_dependencies e f (verbose opts) (do_pragmas opts))) (calls st))"
  shows "allerrors st' = concat (map (\<lambda>f. snd (find_dependencies e f (verbose opts) (do_pragmas opts))) (calls st'))"
proof (rule gendeps_loop_invariant[where
    P = "\<lambda>s. allerrors s = concat (map (\<lambda>f. snd (find_dependencies e f (verbose opts) (do_pragmas opts))) (calls s))",
    OF assms])
  fix s fn s'
  assume "allerrors s = concat (map (\<lambda>f. snd (find_dependencies e f (verbose opts) (do_pragmas opts))) (calls s))"
    and "process_file e opts R s fn = Inr s'"
  then show "allerrors s' = concat (map (\<lambda>f. snd (find_dependencies e f (verbose opts) (do_pragmas opts))) (calls s'))"
    using process_file_frame(2,3)[of e opts R s fn s'] by simp
next
  fix s
  assume "allerrors s = concat (map (\<lambda>f. snd (find_dependencies e f (verbose opts) (do_pragmas opts))) (calls s))"
  then show "allerrors (s\<lparr>newfiles := {}\<rparr>)
      = concat (map (\<lambda>f. snd (find_dependencies e f (verbose opts) (do_pragmas opts))) (calls (s\<lparr>newfiles := {}\<rparr>)))"
    by simp
qed


text \<open>
  C9 does not hold as worded: with \<^verbatim>\<open>--print-roots\<close> the function returns on line 71, before
  the checks of lines 75 to 86. With \<^verbatim>\<open>--print-roots --internal\<close> and an input for which no
  root is found, the (empty) list of roots is printed and the run ends normally.
\<close>

theorem print_roots_skips_the_checks:
  "print_roots ex_opts_print_roots \<and> internal ex_opts_print_roots \<and>
   exists ex_env (realpath ex_env ''/none'') \<and>
   find_roots ex_env [''/none''] (ignores ex_opts_print_roots) = [] \<and>
   gendeps ex_env ex_opts_print_roots [''/none''] = Some (Inr (PrintedRoots []))"
  by (simp add: gendeps_def ex_env_def ex_opts_print_roots_def)

text \<open>
  C9, amended. Without \<^verbatim>\<open>--print-roots\<close>: when an input path does not exist, the run ends
  with the error of \<^verbatim>\<open>parser.error\<close> that names a path that does not exist; when all exist,
  \<^verbatim>\<open>--internal\<close> is given and no root is found, it ends with the error about the roots; in
  both cases whatever the extractor would do, so no file has been processed. The errors
  the extractor reports are not fatal: a run is the run with an extractor that reports
  none, up to the list of errors, and that list is the errors of the files extracted, in
  the order of the calls; it is what the report is made from.
\<close>

theorem configuration_errors_abort:
  assumes "\<not> print_roots opts"
  shows "((\<exists>arg \<in> set (if args = [] then [''.''] else args). \<not> exists e (realpath e arg)) \<longrightarrow>
           (\<exists>fn. \<not> exists e fn \<and>
              (\<forall>fd. gendeps (e\<lparr>find_dependencies := fd\<rparr>) opts args =
                 Some (Inl (ParserError
                   (''Filename '' @ [CHR 0x27] @ fn @ [CHR 0x27] @ '' does not exist.'')))))) \<and>
         ((\<forall>arg \<in> set (if args = [] then [''.''] else args). exists e (realpath e arg)) \<and>
          internal opts \<and> find_roots e (if args = [] then [''.''] else args) (ignores opts) = [] \<longrightarrow>
           (\<forall>fd. gendeps (e\<lparr>find_dependencies := fd\<rparr>) opts args =
              Some (Inl (ParserError no_roots_message)))) \<and>
         gendeps_loop (without_errors e) opts R (forget_errors st) fiter
           = map_option (map_sum id forget_errors) (gendeps_loop e opts R st fiter) \<and>
         (gendeps_loop e opts R init_state fiter = Some (Inr st') \<longrightarrow>
            allerrors st' = concat (map (\<lambda>f. snd (find_dependencies e f (verbose opts) (do_pragmas opts)))
                                      (calls st')))"
proof (intro conjI impI)
  assume "\<exists>arg \<in> set (if args = [] then [''.''] else args). \<not> exists e (realpath e arg)"
  with assms show "\<exists>fn. \<not> exists e fn \<and>
              (\<forall>fd. gendeps (e\<lparr>find_dependencies := fd\<rparr>) opts args =
                 Some (Inl (ParserError
                   (''Filename '' @ [CHR 0x27] @ fn @ [CHR 0x27] @ '' does not exist.''))))"
    by (rule gendeps_missing_path)
next
  assume a: "(\<forall>arg \<in> set (if args = [] then [''.''] else args). exists e (realpath e arg)) \<and>
          internal opts \<and> find_roots e (if args = [] then [''.''] else args) (ignores opts) = []"
  show "\<forall>fd. gendeps (e\<lparr>find_dependencies := fd\<rparr>) opts args =
              Some (Inl (ParserError no_roots_message))"
  proof
    fix fd
    from a show "gendeps (e\<lparr>find_dependencies := fd\<rparr>) opts args =
              Some (Inl (ParserError no_roots_message))"
      by (intro gendeps_no_roots[OF assms]) simp_all
  qed
next
  show "gendeps_loop (without_errors e) opts R (forget_errors st) fiter
           = map_option (map_sum id forget_errors) (gendeps_loop e opts R st fiter)"
    by (rule gendeps_loop_forget)
next
  assume "gendeps_loop e opts R init_state fiter = Some (Inr st')"
  then show "allerrors st' = concat (map (\<lambda>f. snd (find_dependencies e f (verbose opts) (do_pragmas opts)))
                                      (calls st'))"
    by (rule gendeps_loop_allerrors) (simp add: init_state_def)
qed

theorem configuration_errors_abort_witness:
  "\<not> print_roots ex_opts \<and>
   (\<exists>fn. \<not> exists ex_env fn \<and> gendeps ex_env ex_opts [''/missing''] =
      Some (Inl (ParserError (''Filename '' @ [CHR 0x27] @ fn @ [CHR 0x27] @ '' does not exist.'')))) \<and>
   gendeps ex_env ex_opts [''/none''] = Some (Inl (ParserError no_roots_message))"
proof -
  have h: "\<not> print_roots ex_opts" by (simp add: ex_opts_def)
  have m: "\<exists>arg \<in> set (if [''/missing''] = [] then [''.''] else [''/missing'']).
             \<not> exists ex_env (realpath ex_env arg)"
    by (simp add: ex_env_def)
  have n: "(\<forall>arg \<in> set (if [''/none''] = [] then [''.''] else [''/none'']).
             exists ex_env (realpath ex_env arg)) \<and> internal ex_opts \<and>
           find_roots ex_env (if [''/none''] = [] then [''.''] else [''/none'']) (ignores ex_opts) = []"
    by (simp add: ex_env_def ex_opts_def)
  have id: "ex_env\<lparr>find_dependencies := find_dependencies ex_env\<rparr> = ex_env" by simp
  from configuration_errors_abort[OF h, of "[''/missing'']" ex_env, THEN conjunct1] m
  obtain fn where "\<not> exists ex_env fn"
    "\<forall>fd. gendeps (ex_env\<lparr>find_dependencies := fd\<rparr>) ex_opts [''/missing''] =
        Some (Inl (ParserError (''Filename '' @ [CHR 0x27] @ fn @ [CHR 0x27] @ '' does not exist.'')))"
    by blast
  then have a: "\<exists>fn. \<not> exists ex_env fn \<and> gendeps ex_env ex_opts [''/missing''] =
      Some (Inl (ParserError (''Filename '' @ [CHR 0x27] @ fn @ [CHR 0x27] @ '' does not exist.'')))"
    using id by metis
  from configuration_errors_abort[OF h, of "[''/none'']" ex_env, THEN conjunct2, THEN conjunct1] n
  have "\<forall>fd. gendeps (ex_env\<lparr>find_dependencies := fd\<rparr>) ex_opts [''/none''] =
        Some (Inl (ParserError no_roots_message))"
    by blast
  then have b: "gendeps ex_env ex_opts [''/none''] = Some (Inl (ParserError no_roots_message))"
    using id by metis
  from h a b show ?thesis by blast
qed


end
